theory Spec2Isabelle
  imports Complex_Main "HOL-Library.AList" "HOL-Library.Char_ord" "HOL-Library.List_Lexorder"
    "HOL-Library.Log_Nat"
begin

section \<open>Python primitives used by the notebook\<close>

text \<open>
  The notebook \<^verbatim>\<open>examples/mindspore_qnn_for_nlp.ipynb\<close> is plain Python over strings,
  lists, dictionaries and unbounded integers. Exceptions are values of \<open>py_error\<close>; a
  function that can raise returns \<open>py_error + 'a\<close>, with \<open>Inl\<close> for the exception.
  Characters are the code points 0..255, ordered by code point as Python orders them.
\<close>

datatype py_error = IndexError | KeyError | ValueError | OverflowError | TypeError

subsection \<open>Integers as text: \<^verbatim>\<open>str\<close> and \<^verbatim>\<open>bin\<close>\<close>

definition digit_char :: "nat \<Rightarrow> char" where
  "digit_char d = char_of (48 + d)"

fun dec_digits :: "nat \<Rightarrow> string" where
  "dec_digits n = (if n < 10 then [digit_char n] else dec_digits (n div 10) @ [digit_char (n mod 10)])"

declare dec_digits.simps [simp del]

definition str :: "int \<Rightarrow> string" where
  \<comment> \<open>\<^verbatim>\<open>str(i)\<close> of an integer: decimal digits, a minus sign for a negative one.\<close>
  "str i = (if i < 0 then CHR ''-'' # dec_digits (nat (- i)) else dec_digits (nat i))"

fun bin_digits :: "nat \<Rightarrow> string" where
  "bin_digits n = (if n < 2 then [digit_char n] else bin_digits (n div 2) @ [digit_char (n mod 2)])"

declare bin_digits.simps [simp del]

definition bin :: "int \<Rightarrow> string" where
  \<comment> \<open>\<^verbatim>\<open>bin(i)\<close>: \<^verbatim>\<open>'0b'\<close> and the binary digits, most significant first; \<^verbatim>\<open>bin(0) = '0b0'\<close>.\<close>
  "bin i = (if i < 0 then ''-0b'' @ bin_digits (nat (- i)) else ''0b'' @ bin_digits (nat i))"

definition slice_back_to_2 :: "'a list \<Rightarrow> 'a list" where
  \<comment> \<open>\<^verbatim>\<open>s[-1:1:-1]\<close>: the items at positions \<open>len - 1\<close>, \<open>len - 2\<close>, ..., \<open>2\<close>, in that order.\<close>
  "slice_back_to_2 s = rev (drop 2 s)"

definition ljust :: "string \<Rightarrow> int \<Rightarrow> char \<Rightarrow> string" where
  \<comment> \<open>\<^verbatim>\<open>s.ljust(n, c)\<close>: pads on the right up to width \<open>n\<close>; a longer string, or a width
     that is not positive, leaves the string unchanged.\<close>
  "ljust s n c = s @ replicate (nat n - length s) c"

definition int_of_char :: "char \<Rightarrow> py_error + int" where
  \<comment> \<open>\<^verbatim>\<open>int(c)\<close> of a one-character string: the value of a decimal digit, and
     \<^verbatim>\<open>ValueError\<close> for any other character.\<close>
  "int_of_char c =
     (if 48 \<le> (of_char c :: nat) \<and> (of_char c :: nat) \<le> 57 then Inr (int (of_char c) - 48)
      else Inl ValueError)"

subsection \<open>Strings: whitespace, \<^verbatim>\<open>split\<close> and \<^verbatim>\<open>strip\<close>\<close>

definition isspace :: "char \<Rightarrow> bool" where
  \<comment> \<open>The white space of Python among the code points below 256.\<close>
  "isspace c = (of_char c \<in> {9, 10, 11, 12, 13, 28, 29, 30, 31, 32, 133, 160 :: nat})"

fun split_from :: "string \<Rightarrow> string \<Rightarrow> string list" where
  "split_from word [] = (if word = [] then [] else [word])"
| "split_from word (c # cs) =
     (if isspace c then (if word = [] then split_from [] cs else word # split_from [] cs)
      else split_from (word @ [c]) cs)"

definition split :: "string \<Rightarrow> string list" where
  \<comment> \<open>\<^verbatim>\<open>s.split()\<close>: the maximal runs of characters that are not white space.\<close>
  "split s = split_from [] s"

definition strip :: "string \<Rightarrow> string" where
  \<comment> \<open>\<^verbatim>\<open>s.strip()\<close>: white space removed at both ends.\<close>
  "strip s = rev (dropWhile isspace (rev (dropWhile isspace s)))"

subsection \<open>Ranges, indexing and slicing\<close>

definition py_range :: "int \<Rightarrow> int list" where
  \<comment> \<open>\<^verbatim>\<open>range(n)\<close>; empty when \<open>n \<le> 0\<close>.\<close>
  "py_range n = map int [0..<nat n]"

definition py_range2 :: "int \<Rightarrow> int \<Rightarrow> int list" where
  \<comment> \<open>\<^verbatim>\<open>range(a, b)\<close>; empty when \<open>b \<le> a\<close>.\<close>
  "py_range2 a b = map (\<lambda>k. a + int k) [0..<nat (b - a)]"

definition py_range_by2 :: "int \<Rightarrow> int \<Rightarrow> int list" where
  \<comment> \<open>\<^verbatim>\<open>range(a, b, 2)\<close>: \<open>a\<close>, \<open>a + 2\<close>, ... below \<open>b\<close>.\<close>
  "py_range_by2 a b = map (\<lambda>k. a + 2 * int k) [0..<nat ((b - a + 1) div 2)]"

definition py_get :: "'a list \<Rightarrow> int \<Rightarrow> py_error + 'a" where
  \<comment> \<open>\<^verbatim>\<open>xs[i]\<close>: a negative index counts from the end, an index out of range raises.\<close>
  "py_get xs i =
     (if 0 \<le> i \<and> i < int (length xs) then Inr (xs ! nat i)
      else if i < 0 \<and> - int (length xs) \<le> i then Inr (xs ! nat (int (length xs) + i))
      else Inl IndexError)"

definition slice_bound :: "nat \<Rightarrow> int \<Rightarrow> nat" where
  \<comment> \<open>A bound of a slice, counted from the end when negative, clamped into \<open>0..len\<close>.\<close>
  "slice_bound len i = (if i < 0 then nat (max 0 (int len + i)) else min len (nat i))"

definition py_slice :: "'a list \<Rightarrow> int \<Rightarrow> int \<Rightarrow> 'a list" where
  \<comment> \<open>\<^verbatim>\<open>xs[a:b]\<close>.\<close>
  "py_slice xs a b =
     (let s = slice_bound (length xs) a; e = slice_bound (length xs) b
      in take (e - s) (drop s xs))"

subsection \<open>Dictionaries and loops that can raise\<close>

text \<open>
  A dictionary keeps its keys in insertion order: it is an association list, the
  assignment \<^verbatim>\<open>d[k] = v\<close> is \<open>AList.update k v d\<close> (the value replaced in place for a
  key that is present, the pair appended otherwise), and \<^verbatim>\<open>d[k]\<close> raises for a key that
  is absent.
\<close>

type_synonym ('k, 'v) dict = "('k \<times> 'v) list"

definition dict_get :: "('k, 'v) dict \<Rightarrow> 'k \<Rightarrow> py_error + 'v" where
  "dict_get d k = (case map_of d k of None \<Rightarrow> Inl KeyError | Some v \<Rightarrow> Inr v)"

fun collect :: "('a \<Rightarrow> py_error + 'b) \<Rightarrow> 'a list \<Rightarrow> py_error + 'b list" where
  \<comment> \<open>A loop appending \<open>f x\<close> for each \<open>x\<close> in turn; the first exception ends it.\<close>
  "collect f [] = Inr []"
| "collect f (x # xs) =
     (case f x of
        Inl e \<Rightarrow> Inl e
      | Inr y \<Rightarrow> (case collect f xs of Inl e \<Rightarrow> Inl e | Inr ys \<Rightarrow> Inr (y # ys)))"

subsection \<open>Floating-point numbers\<close>

text \<open>
  A floating-point number is the real number it stands for. \<open>round_to p\<close> rounds a real
  number to the nearest one with \<open>p\<close> significant bits, a tie going to the even
  neighbour: \<open>float64\<close> is the rounding of every double-precision operation and of the
  conversion of an integer, \<open>float32\<close> the one of \<^verbatim>\<open>astype(np.float32)\<close>. Overflow and
  subnormal numbers are not modelled: the logarithms and the multiples of \<^verbatim>\<open>np.pi\<close> of
  this program stay far from both. \<^verbatim>\<open>np.pi\<close> is the double nearest to \<open>pi\<close>.
\<close>

definition round_half_even :: "real \<Rightarrow> int" where
  "round_half_even x =
     (let f = \<lfloor>x\<rfloor>
      in if x - of_int f < 1 / 2 then f
         else if 1 / 2 < x - of_int f then f + 1
         else if even f then f else f + 1)"

definition round_to :: "nat \<Rightarrow> real \<Rightarrow> real" where
  "round_to p x =
     (if x = 0 then 0
      else let u = 2 powr of_int (\<lfloor>log 2 \<bar>x\<bar>\<rfloor> - int p + 1)
           in of_int (round_half_even (x / u)) * u)"

definition float64 :: "real \<Rightarrow> real" where
  "float64 x = round_to 53 x"

definition float32 :: "real \<Rightarrow> real" where
  "float32 x = round_to 24 x"

definition np_pi :: real where
  "np_pi = 884279719003555 / 2 ^ 48"

subsection \<open>The qubit count \<^verbatim>\<open>np.ceil(np.log2(k))\<close>\<close>

text \<open>
  For an integer \<open>0 < k < 2 ^ 64\<close>, \<^verbatim>\<open>np.log2(k)\<close> converts \<open>k\<close> to a double and rounds its
  binary logarithm to a double; the logarithm of the library is taken to be correctly
  rounded. \<^verbatim>\<open>np.ceil\<close> of a double is exact. From \<open>2 ^ 64\<close> on the integer fits no numpy
  integer type and \<^verbatim>\<open>np.log2\<close> raises \<^verbatim>\<open>TypeError\<close>; the callers below say what happens
  for \<open>k \<le> 0\<close>.
\<close>

definition float_ceil_log2 :: "int \<Rightarrow> int" where
  "float_ceil_log2 k = \<lceil>float64 (log 2 (float64 (of_int k)))\<rceil>"

section \<open>Encoding a word id into rotation angles\<close>

text \<open>
  The two lines of \<^verbatim>\<open>GenerateTrainData\<close> that encode one id:
  \<^verbatim>\<open>label_bin = bin(label)[-1: 1: -1].ljust(n_qubits, '0')\<close> and
  \<^verbatim>\<open>label_array = [int(i)*np.pi for i in label_bin]\<close>. An id is any integer: for a
  negative one the slice of \<^verbatim>\<open>bin(label)\<close> ends in \<^verbatim>\<open>'b'\<close>, where \<^verbatim>\<open>int\<close> raises. The
  product is a double-precision one.
\<close>

definition label_bin :: "int \<Rightarrow> int \<Rightarrow> string" where
  "label_bin label n_qubits = ljust (slice_back_to_2 (bin label)) n_qubits CHR ''0''"

definition label_array :: "string \<Rightarrow> py_error + real list" where
  "label_array lb =
     collect (\<lambda>i. case int_of_char i of
                    Inl e \<Rightarrow> Inl e
                  | Inr d \<Rightarrow> Inr (float64 (of_int d * np_pi))) lb"

text \<open>
  Reading a sequence of bits as a little-endian binary number: position \<open>j\<close> counts
  \<open>2 ^ j\<close>. A character is a set bit when it is \<^verbatim>\<open>'1'\<close>, an angle when it is not zero.
\<close>

fun little_endian :: "bool list \<Rightarrow> nat" where
  "little_endian [] = 0"
| "little_endian (b # bs) = (if b then 1 else 0) + 2 * little_endian bs"

definition decode_chars :: "string \<Rightarrow> nat" where
  "decode_chars s = little_endian (map (\<lambda>c. c = CHR ''1'') s)"

definition decode_angles :: "real list \<Rightarrow> nat" where
  "decode_angles a = little_endian (map (\<lambda>x. x \<noteq> 0) a)"

section \<open>Data preprocessing\<close>

subsection \<open>\<^verbatim>\<open>GenerateWordDictAndSample\<close>\<close>

text \<open>
  \<^verbatim>\<open>word_set = list(set(all_words)); word_set.sort()\<close> is the sorted list of the distinct
  words, whatever order the set is listed in. The dictionary comprehension assigns the
  positions of that list.
\<close>

type_synonym sample = "string list \<times> string"

definition word_dict_of :: "string list \<Rightarrow> (string, nat) dict" where
  "word_dict_of all_words =
     (let word_set = sort (remdups all_words)
      in fold (\<lambda>(i, w) d. AList.update w i d) (List.enumerate 0 word_set) [])"

definition around_of :: "string list \<Rightarrow> int \<Rightarrow> int \<Rightarrow> py_error + string list" where
  \<comment> \<open>The inner loop: the words at \<open>index, ..., index + 2 * window\<close> but for the centre.\<close>
  "around_of all_words window index =
     collect (py_get all_words)
       (filter (\<lambda>i. i \<noteq> index + window) (py_range2 index (index + 2 * window + 1)))"

definition sample_at :: "string list \<Rightarrow> int \<Rightarrow> int \<Rightarrow> py_error + sample" where
  "sample_at all_words window index =
     (case around_of all_words window index of
        Inl e \<Rightarrow> Inl e
      | Inr around \<Rightarrow>
          (case py_get all_words (index + window) of
             Inl e \<Rightarrow> Inl e
           | Inr center \<Rightarrow> Inr (around, center)))"

definition GenerateWordDictAndSample ::
  "string \<Rightarrow> int \<Rightarrow> py_error + ((string, nat) dict \<times> sample list)" where
  "GenerateWordDictAndSample corpus window =
     (let all_words = split corpus;
          word_dict = word_dict_of all_words
      in case collect (sample_at all_words window)
                (py_range (int (length (py_slice all_words window (- window))))) of
           Inl e \<Rightarrow> Inl e
         | Inr sampling \<Rightarrow> Inr (word_dict, sampling))"

subsection \<open>\<^verbatim>\<open>GenerateTrainData\<close>\<close>

text \<open>
  The dictionary is any dictionary from words to integers. \<^verbatim>\<open>max\<close> of no values
  raises. \<^verbatim>\<open>np.array(data_x)\<close> needs rows of one length and raises otherwise,
  \<^verbatim>\<open>astype(np.float32)\<close> rounds every entry, and \<^verbatim>\<open>astype(np.int32)\<close> keeps the low 32
  bits of an id, read as a signed number.

  Two conversions depend on the numpy at hand and are a parameter of the model: what
  \<^verbatim>\<open>np.int32\<close> makes of the ceiling when \<open>1 + max \<le> 0\<close>, where the logarithm is minus
  infinity or not a number, and what \<^verbatim>\<open>np.array(data_y).astype(np.int32)\<close> makes of ids
  that do not all fit a signed 64-bit integer.
\<close>

record numpy_build =
  int32_nonfinite :: "int \<Rightarrow> py_error + int"
  int32_wide :: "int list \<Rightarrow> py_error + int list"

definition np_int32_ceil_log2 :: "numpy_build \<Rightarrow> int \<Rightarrow> py_error + int" where
  \<comment> \<open>\<^verbatim>\<open>np.int32(np.ceil(np.log2(k)))\<close>\<close>
  "np_int32_ceil_log2 numpy k =
     (if 2 ^ 64 \<le> k then Inl TypeError
      else if k \<le> 0 then int32_nonfinite numpy k
      else Inr (float_ceil_log2 k))"

definition n_qubits_of :: "numpy_build \<Rightarrow> (string, int) dict \<Rightarrow> py_error + int" where
  "n_qubits_of numpy word_dict =
     (if word_dict = [] then Inl ValueError
      else np_int32_ceil_log2 numpy (1 + Max (set (map snd word_dict))))"

definition encode_word :: "(string, int) dict \<Rightarrow> int \<Rightarrow> string \<Rightarrow> py_error + real list" where
  "encode_word word_dict n_qubits word =
     (case dict_get word_dict word of
        Inl e \<Rightarrow> Inl e
      | Inr label \<Rightarrow> label_array (label_bin label n_qubits))"

definition encode_sample ::
  "(string, int) dict \<Rightarrow> int \<Rightarrow> sample \<Rightarrow> py_error + (real list \<times> int)" where
  "encode_sample word_dict n_qubits s =
     (case collect (encode_word word_dict n_qubits) (fst s) of
        Inl e \<Rightarrow> Inl e
      | Inr arrays \<Rightarrow>
          (case dict_get word_dict (snd s) of
             Inl e \<Rightarrow> Inl e
           | Inr y \<Rightarrow> Inr (concat arrays, y)))"

definition np_array_2d :: "'a list list \<Rightarrow> py_error + 'a list list" where
  "np_array_2d rows =
     (if list_all (\<lambda>r. length r = length (hd rows)) rows then Inr rows else Inl ValueError)"

definition as_int32 :: "int \<Rightarrow> int" where
  "as_int32 y = (y + 2 ^ 31) mod 2 ^ 32 - 2 ^ 31"

definition np_array_int32 :: "numpy_build \<Rightarrow> int list \<Rightarrow> py_error + int list" where
  \<comment> \<open>\<^verbatim>\<open>np.array(ys).astype(np.int32)\<close>\<close>
  "np_array_int32 numpy ys =
     (if list_all (\<lambda>y. - (2 ^ 63) \<le> y \<and> y < 2 ^ 63) ys then Inr (map as_int32 ys)
      else int32_wide numpy ys)"

definition GenerateTrainData ::
  "numpy_build \<Rightarrow> sample list \<Rightarrow> (string, int) dict \<Rightarrow>
   py_error + (real list list \<times> int list)" where
  "GenerateTrainData numpy sample word_dict =
     (case n_qubits_of numpy word_dict of
        Inl e \<Rightarrow> Inl e
      | Inr n_qubits \<Rightarrow>
          (case collect (encode_sample word_dict n_qubits) sample of
             Inl e \<Rightarrow> Inl e
           | Inr xys \<Rightarrow>
               (case np_array_2d (map fst xys) of
                  Inl e \<Rightarrow> Inl e
                | Inr data_x \<Rightarrow>
                    (case np_array_int32 numpy (map snd xys) of
                       Inl e \<Rightarrow> Inl e
                     | Inr data_y \<Rightarrow> Inr (map (map float32) data_x, data_y)))))"

section \<open>Circuits\<close>

text \<open>
  Modelled from the spec: the modules \<^verbatim>\<open>gates\<close> and \<^verbatim>\<open>circuit\<close> that the notebook
  imports (\<^verbatim>\<open>RX\<close>, \<^verbatim>\<open>RY\<close>, \<^verbatim>\<open>X\<close>, \<^verbatim>\<open>H\<close>, \<^verbatim>\<open>Circuit\<close>, \<^verbatim>\<open>UN\<close>) are not among the sources. The
  functions of the notebook produce configuration objects: a circuit is the list of
  its gates in the order the notebook prints them, \<^verbatim>\<open>circ += g\<close> appends,
  \<^verbatim>\<open>RX(name).on(i)\<close> is a rotation on the qubit \<open>i\<close> with a fresh parameter of that name,
  and \<^verbatim>\<open>X(i + 1, i)\<close> is the gate printed as \<^verbatim>\<open>X<i + 1, i>\<close>. A parameter records
  whether it belongs to the encoder and whether it takes a gradient.
\<close>

record param =
  pname :: string
  encoder_part :: bool
  requires_grad :: bool

datatype gate = RX param int | RY param int | X int int | H int

type_synonym Circuit = "gate list"

definition new_param :: "string \<Rightarrow> param" where
  "new_param name = \<lparr>pname = name, encoder_part = False, requires_grad = True\<rparr>"

fun map_param :: "(param \<Rightarrow> param) \<Rightarrow> gate \<Rightarrow> gate" where
  "map_param f (RX p q) = RX (f p) q"
| "map_param f (RY p q) = RY (f p) q"
| "map_param f (X t c) = X t c"
| "map_param f (H q) = H q"

fun gate_params :: "gate \<Rightarrow> string list" where
  "gate_params (RX p q) = [pname p]"
| "gate_params (RY p q) = [pname p]"
| "gate_params (X t c) = []"
| "gate_params (H q) = []"

definition as_encoder :: "Circuit \<Rightarrow> Circuit" where
  \<comment> \<open>Modelled from the spec: \<^verbatim>\<open>Circuit.as_encoder\<close> of the missing module \<^verbatim>\<open>circuit\<close>;
     it marks every parameter of the circuit as an encoder parameter.\<close>
  "as_encoder circ = map (map_param (\<lambda>p. p\<lparr>encoder_part := True\<rparr>)) circ"

definition as_ansatz :: "Circuit \<Rightarrow> Circuit" where
  \<comment> \<open>Modelled from the spec: \<^verbatim>\<open>Circuit.as_ansatz\<close> of the missing module \<^verbatim>\<open>circuit\<close>;
     it marks every parameter of the circuit as an ansatz parameter.\<close>
  "as_ansatz circ = map (map_param (\<lambda>p. p\<lparr>encoder_part := False\<rparr>)) circ"

definition no_grad :: "Circuit \<Rightarrow> Circuit" where
  \<comment> \<open>Modelled from the spec: \<^verbatim>\<open>Circuit.no_grad\<close> of the missing module \<^verbatim>\<open>circuit\<close>;
     no parameter of the circuit takes a gradient afterwards.\<close>
  "no_grad circ = map (map_param (\<lambda>p. p\<lparr>requires_grad := False\<rparr>)) circ"

definition params_name :: "Circuit \<Rightarrow> string list" where
  \<comment> \<open>Modelled from the spec: \<^verbatim>\<open>Circuit.params_name\<close> of the missing module \<^verbatim>\<open>circuit\<close>;
     the names of the parameters, in order of first use.\<close>
  "params_name circ = remdups (concat (map gate_params circ))"

definition UN_H :: "int \<Rightarrow> Circuit" where
  \<comment> \<open>Modelled from the spec: \<^verbatim>\<open>UN(H, n)\<close> of the missing module \<^verbatim>\<open>circuit\<close>;
     a Hadamard gate on each of the qubits \<open>0, ..., n - 1\<close>.\<close>
  "UN_H n = map H (py_range n)"

definition add_underscore :: "string \<Rightarrow> string" where
  \<comment> \<open>\<^verbatim>\<open>if prefix and prefix[-1] != '_': prefix += '_'\<close>\<close>
  "add_underscore prefix =
     (if prefix \<noteq> [] \<and> last prefix \<noteq> CHR ''_'' then prefix @ ''_'' else prefix)"

subsection \<open>\<^verbatim>\<open>GenerateEncoderCircuit\<close>\<close>

definition GenerateEncoderCircuit :: "int \<Rightarrow> string \<Rightarrow> Circuit" where
  "GenerateEncoderCircuit n_qubits prefix =
     (let prefix = add_underscore prefix
      in as_encoder
           (fold (\<lambda>i circ. circ @ [RX (new_param (prefix @ str i)) i]) (py_range n_qubits) []))"

subsection \<open>\<^verbatim>\<open>GenerateAnsatzCircuit\<close>\<close>

definition ansatz_layer :: "int \<Rightarrow> string \<Rightarrow> int \<Rightarrow> Circuit \<Rightarrow> Circuit" where
  \<comment> \<open>The body of the loop over \<open>l\<close>: the two inner loops in turn.\<close>
  "ansatz_layer n_qubits prefix l circ =
     (let circ = fold (\<lambda>i circ. circ @ [RY (new_param (prefix @ str l @ ''_'' @ str i)) i])
                   (py_range n_qubits) circ
      in fold (\<lambda>i circ. if i < n_qubits \<and> i + 1 < n_qubits then circ @ [X (i + 1) i] else circ)
           (py_range_by2 (l mod 2) n_qubits) circ)"

definition GenerateAnsatzCircuit :: "int \<Rightarrow> int \<Rightarrow> string \<Rightarrow> Circuit" where
  "GenerateAnsatzCircuit n_qubits layers prefix =
     (let prefix = add_underscore prefix
      in as_ansatz (fold (ansatz_layer n_qubits prefix) (py_range layers) []))"

subsection \<open>\<^verbatim>\<open>GenerateEmbeddingHamiltonian\<close>\<close>

definition ham_string :: "int \<Rightarrow> string" where
  \<comment> \<open>The string \<open>s\<close> that the inner loop builds for the index \<open>i\<close>.\<close>
  "ham_string i =
     fold (\<lambda>(j, k) s. if k = CHR ''1'' then s @ ''Z'' @ str (int j) @ '' '' else s)
       (List.enumerate 0 (slice_back_to_2 (bin (i + 1)))) []"

definition GenerateEmbeddingHamiltonian :: "int \<Rightarrow> int \<Rightarrow> (string, real) dict" where
  "GenerateEmbeddingHamiltonian dims n_qubits =
     fold (\<lambda>i hams. AList.update (strip (ham_string i)) 1 hams) (py_range dims) []"

subsection \<open>\<^verbatim>\<open>QEmbedding\<close>\<close>

text \<open>
  \<^verbatim>\<open>int(np.ceil(np.log2(k)))\<close>: \<^verbatim>\<open>np.log2\<close> raises \<^verbatim>\<open>TypeError\<close> for an integer outside the
  64-bit types; \<^verbatim>\<open>int\<close> raises \<^verbatim>\<open>ValueError\<close> for \<open>k < 0\<close> (the logarithm is not a number)
  and \<^verbatim>\<open>OverflowError\<close> for \<open>k = 0\<close> (it is minus infinity). The loop carries the circuit
  and the two lists of parameter names; the function returns the circuit alone.
\<close>

definition qubits_for :: "int \<Rightarrow> py_error + int" where
  "qubits_for num_embedding =
     (if 2 ^ 64 \<le> num_embedding \<or> num_embedding < - (2 ^ 63) then Inl TypeError
      else if num_embedding < 0 then Inl ValueError
      else if num_embedding = 0 then Inl OverflowError
      else Inr (float_ceil_log2 num_embedding))"

definition QEmbedding_step ::
  "int \<Rightarrow> int \<Rightarrow> int \<Rightarrow> Circuit \<times> string list \<times> string list \<Rightarrow> Circuit \<times> string list \<times> string list" where
  "QEmbedding_step n_qubits layers w st =
     (case st of (circ, encoder_param_name, ansatz_param_name) \<Rightarrow>
        (let encoder = GenerateEncoderCircuit n_qubits (''Encoder_'' @ str w);
             ansatz = GenerateAnsatzCircuit n_qubits layers (''Ansatz_'' @ str w);
             encoder = no_grad encoder
         in (circ @ encoder @ ansatz,
             encoder_param_name @ params_name encoder,
             ansatz_param_name @ params_name ansatz)))"

definition QEmbedding :: "int \<Rightarrow> int \<Rightarrow> int \<Rightarrow> int \<Rightarrow> py_error + Circuit" where
  "QEmbedding num_embedding embedding_dim window layers =
     (case qubits_for num_embedding of
        Inl e \<Rightarrow> Inl e
      | Inr n_qubits \<Rightarrow>
          (let circ = ([] :: Circuit);
               circ = UN_H n_qubits
           in Inr (fst (fold (QEmbedding_step n_qubits layers) (py_range (2 * window))
                          (circ, [], [])))))"

section \<open>Descriptions that the statements use\<close>

text \<open>
  The context of the sample \<open>k\<close> for a window \<open>w\<close>: the tokens at the positions
  \<open>k, ..., k + 2 * w\<close>, in position order, the one at \<open>k + w\<close> left out.
\<close>

definition context_of :: "'a list \<Rightarrow> nat \<Rightarrow> nat \<Rightarrow> 'a list" where
  "context_of tokens w k = map (\<lambda>i. tokens ! i) (filter (\<lambda>i. i \<noteq> k + w) [k..<k + 2 * w + 1])"

text \<open>
  The block of \<^verbatim>\<open>QEmbedding\<close> for the position \<open>w\<close>: the encoder without gradients,
  then the ansatz.
\<close>

definition encoder_ansatz_block :: "int \<Rightarrow> int \<Rightarrow> int \<Rightarrow> Circuit" where
  "encoder_ansatz_block n layers w =
     no_grad (GenerateEncoderCircuit n (''Encoder_'' @ str w)) @
     GenerateAnsatzCircuit n layers (''Ansatz_'' @ str w)"

text \<open>
  The layer \<open>l\<close> of the ansatz: a gate \<^verbatim>\<open>RY\<close> on each qubit, then a gate
  \<^verbatim>\<open>X(i + 1, i)\<close> for \<open>i = l % 2, l % 2 + 2, ...\<close> as long as \<open>i + 1 < n\<close>.
\<close>

definition ry_gates :: "int \<Rightarrow> string \<Rightarrow> int \<Rightarrow> Circuit" where
  "ry_gates n p l =
     map (\<lambda>i. RY \<lparr>pname = p @ str l @ ''_'' @ str i, encoder_part = False, requires_grad = True\<rparr> i)
       (py_range n)"

definition cnot_controls :: "int \<Rightarrow> int \<Rightarrow> int list" where
  "cnot_controls n l = filter (\<lambda>i. i + 1 < n) (map (\<lambda>k. l mod 2 + 2 * int k) [0..<nat n])"

definition cnot_gates :: "int \<Rightarrow> int \<Rightarrow> Circuit" where
  "cnot_gates n l = map (\<lambda>i. X (i + 1) i) (cnot_controls n l)"

text \<open>
  The key of a Hamiltonian term for a number \<open>n\<close>: the positions of the set bits of
  \<open>n\<close>, lowest first, each written \<open>'Z' + str(j)\<close>, joined by single spaces.
\<close>

definition set_bits :: "nat \<Rightarrow> nat list" where
  "set_bits n = filter (\<lambda>j. odd (n div 2 ^ j)) [0..<n]"

fun join_with :: "string \<Rightarrow> string list \<Rightarrow> string" where
  "join_with sep [] = []"
| "join_with sep [x] = x"
| "join_with sep (x # y # ys) = x @ sep @ join_with sep (y # ys)"

definition pauli_key :: "nat \<Rightarrow> string" where
  "pauli_key n = join_with '' '' (map (\<lambda>j. ''Z'' @ str (int j)) (set_bits n))"

text \<open>
  The id of a word that the dictionary holds.
\<close>

definition id_of :: "(string, int) dict \<Rightarrow> string \<Rightarrow> int" where
  "id_of word_dict word = the (map_of word_dict word)"

text \<open>
  The angles of a context word before the cast to \<^verbatim>\<open>np.float32\<close>: \<^verbatim>\<open>np.pi\<close> for a character
  \<^verbatim>\<open>'1'\<close> of its \<^verbatim>\<open>label_bin\<close>, \<open>0\<close> for any other.
\<close>

definition angles_of :: "(string, int) dict \<Rightarrow> int \<Rightarrow> string \<Rightarrow> real list" where
  "angles_of d n w = map (\<lambda>c. if c = CHR ''1'' then np_pi else 0) (label_bin (id_of d w) n)"

text \<open>
  The exact ceiling of the binary logarithm, by search: the least \<open>n\<close> with
  \<open>k \<le> 2 ^ n\<close>. It is no part of the notebook; the proofs evaluate the qubit count with
  it where the rounding of \<^verbatim>\<open>np.log2\<close> does no harm.
\<close>

function ceil_log2_from :: "nat \<Rightarrow> nat \<Rightarrow> nat" where
  "ceil_log2_from n k = (if k \<le> 2 ^ n then n else ceil_log2_from (Suc n) k)"
  by pat_completeness auto
termination
proof (relation "measure (\<lambda>(n, k). k - 2 ^ n)")
  show "wf (measure (\<lambda>(n, k). k - 2 ^ n))" by simp
next
  fix n k :: nat
  assume "\<not> k \<le> 2 ^ n"
  then have "(2::nat) ^ n < k" and "(0::nat) < 2 ^ n"
    by simp_all
  then have "k - 2 * 2 ^ n < k - 2 ^ n"
    by arith
  then show "((Suc n, k), (n, k)) \<in> measure (\<lambda>(n, k). k - 2 ^ n)"
    by simp
qed

declare ceil_log2_from.simps [simp del]

definition ceil_log2 :: "nat \<Rightarrow> nat" where
  "ceil_log2 k = ceil_log2_from 0 k"

text \<open>
  A value of the parameter for the examples, whose inputs reach neither of the two
  conversions: both raise.
\<close>

definition numpy_raising :: numpy_build where
  "numpy_raising =
     \<lparr>int32_nonfinite = (\<lambda>k. Inl ValueError), int32_wide = (\<lambda>ys. Inl OverflowError)\<rparr>"

section \<open>Properties of the encoding of an id\<close>

lemma digit_char_0 [simp]: "digit_char 0 = CHR ''0''"
  unfolding digit_char_def by code_simp

lemma digit_char_1 [simp]: "digit_char (Suc 0) = CHR ''1''"
  unfolding digit_char_def by code_simp

lemma digit_char_bit: "d < 2 \<Longrightarrow> digit_char d = (if d = 0 then CHR ''0'' else CHR ''1'')"
  by (cases d) (auto simp: less_2_cases_iff)

lemma little_endian_pad: "little_endian (bs @ replicate k False) = little_endian bs"
  by (induction bs) (simp_all, induction k, simp_all)

lemma little_endian_rev_bin_digits:
  "little_endian (map (\<lambda>c. c = CHR ''1'') (rev (bin_digits n))) = n"
proof (induction n rule: bin_digits.induct)
  case (1 n)
  show ?case
  proof (cases "n < 2")
    case True
    then show ?thesis
      by (subst bin_digits.simps) (auto simp: less_2_cases_iff)
  next
    case False
    have "n mod 2 < 2" by simp
    then have d: "(digit_char (n mod 2) = CHR ''1'') = (n mod 2 = 1)"
      by (simp add: digit_char_bit)
    from False 1 have "little_endian (map (\<lambda>c. c = CHR ''1'') (rev (bin_digits (n div 2)))) = n div 2"
      by simp
    with False d show ?thesis
      by (subst bin_digits.simps) (simp, presburger)
  qed
qed

lemma bin_digits_chars: "set (bin_digits n) \<subseteq> {CHR ''0'', CHR ''1''}"
proof (induction n rule: bin_digits.induct)
  case (1 n)
  have "n mod 2 < 2" by simp
  then have "digit_char (n mod 2) \<in> {CHR ''0'', CHR ''1''}"
    by (simp add: digit_char_bit)
  moreover have "n < 2 \<Longrightarrow> digit_char n \<in> {CHR ''0'', CHR ''1''}"
    by (simp add: digit_char_bit)
  ultimately show ?case using 1
    by (subst bin_digits.simps) auto
qed

lemma ceil_log2_from_ge: "k \<le> 2 ^ ceil_log2_from n k"
  by (induction n k rule: ceil_log2_from.induct) (subst ceil_log2_from.simps, simp)

lemma ceil_log2_from_least: "n \<le> m \<Longrightarrow> k \<le> 2 ^ m \<Longrightarrow> ceil_log2_from n k \<le> m"
proof (induction n k rule: ceil_log2_from.induct)
  case (1 n k)
  show ?case
  proof (cases "k \<le> 2 ^ n")
    case True
    with 1 show ?thesis by (subst ceil_log2_from.simps) simp
  next
    case False
    with 1 have "n \<noteq> m" by auto
    with 1 False show ?thesis by (subst ceil_log2_from.simps) simp
  qed
qed

lemma ceil_log2_le_iff: "ceil_log2 k \<le> l \<longleftrightarrow> k \<le> 2 ^ l"
proof
  assume "ceil_log2 k \<le> l"
  then have "(2::nat) ^ ceil_log2 k \<le> 2 ^ l" by simp
  with ceil_log2_from_ge [of k 0] show "k \<le> 2 ^ l"
    unfolding ceil_log2_def by linarith
next
  assume "k \<le> 2 ^ l"
  then show "ceil_log2 k \<le> l"
    unfolding ceil_log2_def by (simp add: ceil_log2_from_least)
qed

text \<open>
  The search computes the ceiling of the real logarithm that the source asks for.
\<close>

lemma ceil_log2_is_ceiling: "0 < k \<Longrightarrow> ceil_log2 k = nat \<lceil>log 2 (real k)\<rceil>"
proof -
  assume k: "0 < k"
  have "ceil_log2 k \<le> ceillog2 k"
    using k by (simp add: ceil_log2_le_iff le_two_power_ceillog2)
  moreover have "ceillog2 k \<le> ceil_log2 k"
    using k ceil_log2_le_iff [of k "ceil_log2 k"] by (simp add: ceillog2_le_iff)
  ultimately have "ceil_log2 k = ceillog2 k"
    by (rule antisym)
  with k show ?thesis by (simp add: ceillog2_def)
qed

section \<open>Properties of the dictionary and the samples\<close>

lemma collect_all_Inr: "(\<And>x. x \<in> set xs \<Longrightarrow> f x = Inr (g x)) \<Longrightarrow> collect f xs = Inr (map g xs)"
  by (induction xs) simp_all

lemma update_fresh: "k \<notin> fst ` set al \<Longrightarrow> AList.update k v al = al @ [(k, v)]"
  by (induction al) auto

lemma fold_update_enumerate:
  "distinct ws \<Longrightarrow> set ws \<inter> fst ` set d = {} \<Longrightarrow>
   fold (\<lambda>(i, w) d. AList.update w i d) (List.enumerate k ws) d = d @ zip ws [k..<k + length ws]"
proof (induction ws arbitrary: k d)
  case Nil
  then show ?case by simp
next
  case (Cons w ws)
  from Cons.prems have fresh: "w \<notin> fst ` set d" by auto
  have "set ws \<inter> fst ` set (d @ [(w, k)]) = {}"
    using Cons.prems by auto
  with Cons.prems have "fold (\<lambda>(i, w) d. AList.update w i d) (List.enumerate (Suc k) ws) (d @ [(w, k)])
      = (d @ [(w, k)]) @ zip ws [Suc k..<Suc k + length ws]"
    by (intro Cons.IH) simp_all
  moreover have "[k..<k + length (w # ws)] = k # [Suc k..<Suc k + length ws]"
    by (simp add: upt_conv_Cons del: upt_Suc)
  ultimately show ?case
    by (simp add: update_fresh [OF fresh] del: upt_Suc)
qed

lemma word_dict_of_zip:
  "word_dict_of ws = zip (sorted_list_of_set (set ws)) [0..<card (set ws)]"
proof -
  have "distinct (sort (remdups ws))" by simp
  then have "word_dict_of ws = zip (sort (remdups ws)) [0..<length (sort (remdups ws))]"
    unfolding word_dict_of_def Let_def
    using fold_update_enumerate [of "sort (remdups ws)" "[]" 0] by simp
  moreover have "length (sort (remdups ws)) = card (set ws)"
    by (simp add: length_remdups_card_conv)
  ultimately show ?thesis
    by (simp add: sorted_list_of_set_sort_remdups)
qed

lemma py_get_in_range: "i < length xs \<Longrightarrow> py_get xs (int i) = Inr (xs ! i)"
  by (simp add: py_get_def)

lemma length_py_slice_window:
  "length (py_slice xs (int w) (- int w)) = (if w = 0 then 0 else length xs - 2 * w)"
  by (auto simp: py_slice_def slice_bound_def Let_def)

lemma around_indices:
  "filter (\<lambda>i. i \<noteq> int k + int w) (py_range2 (int k) (int k + 2 * int w + 1))
     = map int (filter (\<lambda>i. i \<noteq> k + w) [k..<k + 2 * w + 1])"
proof -
  have "nat (int k + 2 * int w + 1 - int k) = 2 * w + 1"
    by linarith
  moreover have "map (\<lambda>j. int k + int j) [0..<2 * w + 1] = map int (map (\<lambda>j. j + k) [0..<2 * w + 1])"
    by (simp add: add.commute del: upt_Suc)
  ultimately have "py_range2 (int k) (int k + 2 * int w + 1) = map int [k..<k + 2 * w + 1]"
    unfolding py_range2_def map_add_upt by (simp add: add.commute del: upt_Suc)
  moreover have "(\<lambda>i. i \<noteq> int k + int w) \<circ> int = (\<lambda>i. i \<noteq> k + w)"
    by (rule ext) (simp, linarith)
  ultimately show ?thesis
    by (simp add: filter_map del: upt_Suc)
qed

lemma around_of_in_range:
  assumes "k + 2 * w < length ws"
  shows "around_of ws (int w) (int k) = Inr (context_of ws w k)"
proof -
  have "py_get ws i = Inr (ws ! nat i)"
    if "i \<in> set (map int (filter (\<lambda>i. i \<noteq> k + w) [k..<k + 2 * w + 1]))" for i
  proof -
    from that obtain j where "i = int j" and "j < k + 2 * w + 1" by (auto simp del: upt_Suc)
    with assms show ?thesis by (simp add: py_get_in_range)
  qed
  then have "collect (py_get ws) (map int (filter (\<lambda>i. i \<noteq> k + w) [k..<k + 2 * w + 1]))
      = Inr (map (\<lambda>i. ws ! nat i) (map int (filter (\<lambda>i. i \<noteq> k + w) [k..<k + 2 * w + 1])))"
    by (rule collect_all_Inr)
  then show ?thesis
    unfolding around_of_def around_indices context_of_def by (simp add: comp_def)
qed

lemma sample_at_in_range:
  assumes "k + 2 * w < length ws"
  shows "sample_at ws (int w) (int k) = Inr (context_of ws w k, ws ! (k + w))"
proof -
  from assms have "py_get ws (int k + int w) = Inr (ws ! (k + w))"
    using py_get_in_range [of "k + w" ws] by simp
  then show ?thesis
    by (simp add: sample_at_def around_of_in_range [OF assms])
qed

lemma sampling_of_window:
  "GenerateWordDictAndSample corpus (int w) =
     Inr (word_dict_of (split corpus),
          if w = 0 then []
          else map (\<lambda>k. (context_of (split corpus) w k, split corpus ! (k + w)))
                 [0..<length (split corpus) - 2 * w])"
proof (cases "w = 0")
  case True
  then show ?thesis
    unfolding GenerateWordDictAndSample_def Let_def
    using length_py_slice_window [of "split corpus" 0] by (simp add: py_range_def)
next
  case False
  let ?ws = "split corpus"
  let ?n = "length ?ws - 2 * w"
  have len: "length (py_slice ?ws (int w) (- int w)) = ?n"
    using False by (simp add: length_py_slice_window)
  have "sample_at ?ws (int w) i = Inr (context_of ?ws w (nat i), ?ws ! (nat i + w))"
    if "i \<in> set (py_range (int ?n))" for i
  proof -
    from that obtain k where "i = int k" and "k < ?n"
      by (auto simp: py_range_def)
    then show ?thesis
      using sample_at_in_range [of k w ?ws] by simp
  qed
  then have "collect (sample_at ?ws (int w)) (py_range (int ?n))
      = Inr (map (\<lambda>i. (context_of ?ws w (nat i), ?ws ! (nat i + w))) (py_range (int ?n)))"
    by (rule collect_all_Inr)
  then show ?thesis
    unfolding GenerateWordDictAndSample_def Let_def len
    using False by (simp add: py_range_def comp_def)
qed

lemma context_of_two_runs:
  "context_of tokens w k = map (\<lambda>i. tokens ! i) ([k..<k + w] @ [k + w + 1..<k + 2 * w + 1])"
proof -
  have e: "k + w + (w + 1) = k + 2 * w + 1" by simp
  have "[k..<k + w + (w + 1)] = [k..<k + w] @ [k + w..<k + w + (w + 1)]"
    by (rule upt_add_eq_append) simp
  moreover have "[k + w..<k + w + (w + 1)] = (k + w) # [Suc (k + w)..<k + w + (w + 1)]"
    by (rule upt_conv_Cons) simp
  ultimately have split: "[k..<k + 2 * w + 1] = [k..<k + w] @ (k + w) # [k + w + 1..<k + 2 * w + 1]"
    unfolding e by (simp only: Suc_eq_plus1)
  have "filter (\<lambda>i. i \<noteq> k + w) [k..<k + w] = [k..<k + w]"
    by (rule filter_True) simp
  moreover have "filter (\<lambda>i. i \<noteq> k + w) [k + w + 1..<k + 2 * w + 1] = [k + w + 1..<k + 2 * w + 1]"
    by (rule filter_True) (simp del: upt_Suc)
  ultimately have "filter (\<lambda>i. i \<noteq> k + w) [k..<k + 2 * w + 1] = [k..<k + w] @ [k + w + 1..<k + 2 * w + 1]"
    unfolding split by (simp only: filter_append filter.simps) simp
  then show ?thesis
    unfolding context_of_def by (simp only:)
qed

lemma word_dict_of_result:
  "GenerateWordDictAndSample corpus window = Inr (d, sampling) \<Longrightarrow> d = word_dict_of (split corpus)"
  unfolding GenerateWordDictAndSample_def Let_def by (simp split: sum.splits)

lemma word_dict_of_properties:
  fixes ws :: "string list"
  defines "d \<equiv> word_dict_of ws"
  shows "fst ` set d = set ws" and "distinct (map fst d)" and "length d = card (set ws)"
    and "sorted (map fst d)" and "map snd d = [0..<length d]"
    and "bij_betw (\<lambda>w. the (map_of d w)) (set ws) {0..<card (set ws)}"
proof -
  let ?xs = "sorted_list_of_set (set ws)"
  let ?n = "card (set ws)"
  have d: "d = zip ?xs [0..<?n]"
    unfolding d_def by (rule word_dict_of_zip)
  have len: "length ?xs = ?n" by simp
  have keys: "map fst d = ?xs" and vals: "map snd d = [0..<?n]"
    unfolding d using len by simp_all
  show "fst ` set d = set ws"
    using keys by (metis List.finite_set list.set_map set_sorted_list_of_set)
  show "distinct (map fst d)" and "sorted (map fst d)"
    unfolding keys by simp_all
  show l: "length d = ?n"
    unfolding d by simp
  show "map snd d = [0..<length d]"
    unfolding l by (rule vals)
  have at: "the (map_of d (?xs ! i)) = i" if "i < ?n" for i
  proof -
    have "map_of (zip ?xs [0..<?n]) (?xs ! i) = Some ([0..<?n] ! i)"
      using that len by (intro map_of_zip_nth) simp_all
    with that show ?thesis unfolding d by simp
  qed
  show "bij_betw (\<lambda>w. the (map_of d w)) (set ws) {0..<?n}"
  proof (rule bij_betw_byWitness [where f' = "\<lambda>i. ?xs ! i"])
    show "\<forall>w\<in>set ws. ?xs ! the (map_of d w) = w"
    proof
      fix w assume "w \<in> set ws"
      then have "w \<in> set ?xs" by simp
      then obtain i where "i < ?n" and "?xs ! i = w"
        using len by (metis in_set_conv_nth)
      with at show "?xs ! the (map_of d w) = w" by auto
    qed
    show "\<forall>i\<in>{0..<?n}. the (map_of d (?xs ! i)) = i"
      using at by simp
    show "(\<lambda>w. the (map_of d w)) ` set ws \<subseteq> {0..<?n}"
    proof
      fix i assume "i \<in> (\<lambda>w. the (map_of d w)) ` set ws"
      then obtain w where "w \<in> set ?xs" and i: "i = the (map_of d w)" by auto
      then obtain j where "j < ?n" and "?xs ! j = w"
        using len by (metis in_set_conv_nth)
      with at i show "i \<in> {0..<?n}" by auto
    qed
    show "(\<lambda>i. ?xs ! i) ` {0..<?n} \<subseteq> set ws"
      using len by (metis List.finite_set atLeastLessThan_iff image_subsetI nth_mem
          set_sorted_list_of_set)
  qed
qed

text \<open>
  Claim C2. For every corpus, the dictionary that \<^verbatim>\<open>GenerateWordDictAndSample\<close> returns
  has as keys exactly the distinct tokens of the corpus, so its size is their number;
  the keys stand in sorted order and carry the ids \<open>0, ..., n - 1\<close> in that order; the
  map from a word to its id is a bijection between the tokens and \<open>{0, ..., n - 1}\<close>.
  With the default window the function does return.
\<close>

theorem word_dict_of_corpus:
  "(\<exists>sampling. GenerateWordDictAndSample corpus 2 = Inr (word_dict_of (split corpus), sampling)) \<and>
   (\<forall>window d sampling. GenerateWordDictAndSample corpus window = Inr (d, sampling) \<longrightarrow>
      d = zip (sorted_list_of_set (set (split corpus))) [0..<card (set (split corpus))] \<and>
      fst ` set d = set (split corpus) \<and> distinct (map fst d) \<and>
      length d = card (set (split corpus)) \<and>
      sorted (map fst d) \<and> map snd d = [0..<length d] \<and>
      bij_betw (\<lambda>w. the (map_of d w)) (set (split corpus)) {0..<card (set (split corpus))})"
proof -
  have "\<exists>sampling. GenerateWordDictAndSample corpus 2 = Inr (word_dict_of (split corpus), sampling)"
    using sampling_of_window [of corpus 2] by simp
  moreover have "d = zip (sorted_list_of_set (set (split corpus))) [0..<card (set (split corpus))] \<and>
      fst ` set d = set (split corpus) \<and> distinct (map fst d) \<and>
      length d = card (set (split corpus)) \<and>
      sorted (map fst d) \<and> map snd d = [0..<length d] \<and>
      bij_betw (\<lambda>w. the (map_of d w)) (set (split corpus)) {0..<card (set (split corpus))}"
    if "GenerateWordDictAndSample corpus window = Inr (d, sampling)" for window d sampling
    unfolding word_dict_of_result [OF that]
    using word_dict_of_properties [of "split corpus"] word_dict_of_zip [of "split corpus"]
    by simp
  ultimately show ?thesis by blast
qed

theorem word_dict_of_corpus_witness:
  "GenerateWordDictAndSample ''I love natural language processing'' 2 =
     Inr ([(''I'', 0), (''language'', 1), (''love'', 2), (''natural'', 3), (''processing'', 4)],
          [([''I'', ''love'', ''language'', ''processing''], ''natural'')]) \<and>
   split ''I love natural language processing'' =
     [''I'', ''love'', ''natural'', ''language'', ''processing''] \<and>
   bij_betw (\<lambda>w. the (map_of
       [(''I'', 0::nat), (''language'', 1), (''love'', 2), (''natural'', 3), (''processing'', 4)] w))
     (set [''I'', ''love'', ''natural'', ''language'', ''processing'']) {0..<5}"
proof -
  let ?c = "''I love natural language processing''"
  have r: "GenerateWordDictAndSample ?c 2 =
     Inr ([(''I'', 0), (''language'', 1), (''love'', 2), (''natural'', 3), (''processing'', 4)],
          [([''I'', ''love'', ''language'', ''processing''], ''natural'')])"
    by code_simp
  have s: "split ?c = [''I'', ''love'', ''natural'', ''language'', ''processing'']"
    by code_simp
  have c: "card (set [''I'', ''love'', ''natural'', ''language'', ''processing'']) = 5"
    by simp
  from word_dict_of_corpus [of ?c] r
  have "bij_betw (\<lambda>w. the (map_of
       [(''I'', 0), (''language'', 1), (''love'', 2), (''natural'', 3), (''processing'', 4)] w))
     (set (split ?c)) {0..<card (set (split ?c))}"
    by blast
  then show ?thesis
    unfolding s c using r by simp
qed

text \<open>
  Claim C3. For a corpus of \<open>L\<close> tokens and a window \<open>w \<ge> 1\<close> with \<open>L > 2 * w\<close>,
  \<^verbatim>\<open>GenerateWordDictAndSample\<close> returns exactly \<open>L - 2 * w\<close> samples, and the sample \<open>k\<close>
  pairs the tokens \<open>k, ..., k + 2 * w\<close> but for the token \<open>k + w\<close> with the token
  \<open>k + w\<close>; a context has \<open>2 * w\<close> words.
\<close>

theorem fixed_window_samples:
  assumes "1 \<le> w" and "2 * w < length (split corpus)"
  shows "\<exists>d sampling. GenerateWordDictAndSample corpus (int w) = Inr (d, sampling) \<and>
           length sampling = length (split corpus) - 2 * w \<and>
           (\<forall>k<length sampling.
              sampling ! k = (context_of (split corpus) w k, split corpus ! (k + w)) \<and>
              length (fst (sampling ! k)) = 2 * w)"
proof -
  have "length (context_of (split corpus) w k) = 2 * w" for k
    unfolding context_of_two_runs by simp
  with assms show ?thesis
    by (simp add: sampling_of_window del: upt_Suc)
qed

theorem fixed_window_samples_witness:
  "(1::nat) \<le> 1 \<and> 2 * 1 < length (split ''a b  c d e f'') \<and>
   GenerateWordDictAndSample ''a b  c d e f'' (int 1) =
     Inr ([(''a'', 0), (''b'', 1), (''c'', 2), (''d'', 3), (''e'', 4), (''f'', 5)],
          [([''a'', ''c''], ''b''), ([''b'', ''d''], ''c''), ([''c'', ''e''], ''d''),
           ([''d'', ''f''], ''e'')]) \<and>
   (\<exists>d sampling. GenerateWordDictAndSample ''a b  c d e f'' (int 1) = Inr (d, sampling) \<and>
      length sampling = 6 - 2 * 1)"
proof -
  have s: "length (split ''a b  c d e f'') = 6"
    by code_simp
  have r: "GenerateWordDictAndSample ''a b  c d e f'' (int 1) =
     Inr ([(''a'', 0), (''b'', 1), (''c'', 2), (''d'', 3), (''e'', 4), (''f'', 5)],
          [([''a'', ''c''], ''b''), ([''b'', ''d''], ''c''), ([''c'', ''e''], ''d''),
           ([''d'', ''f''], ''e'')])"
    by code_simp
  have "1 \<le> (1::nat)" and "2 * 1 < length (split ''a b  c d e f'')"
    by (simp_all add: s)
  from fixed_window_samples [OF this] show ?thesis
    unfolding s using r by auto
qed

text \<open>
  Claim C8, for the windows that are not negative. \<^verbatim>\<open>GenerateWordDictAndSample\<close>
  returns for every corpus and every window \<open>window \<ge> 0\<close>; when \<open>window = 0\<close> or the
  corpus has at most \<open>2 * window\<close> tokens the list of samples is empty, and the
  dictionary is the complete one all the same.
\<close>

theorem degenerate_window_no_samples:
  assumes "0 \<le> window"
  shows "(\<exists>sampling. GenerateWordDictAndSample corpus window = Inr (word_dict_of (split corpus), sampling)) \<and>
         (window = 0 \<or> int (length (split corpus)) \<le> 2 * window \<longrightarrow>
            GenerateWordDictAndSample corpus window = Inr (word_dict_of (split corpus), []))"
proof -
  from assms obtain w where w: "window = int w"
    using nonneg_int_cases by blast
  show ?thesis
    unfolding w by (auto simp: sampling_of_window)
qed

theorem degenerate_window_no_samples_witness:
  "(0::int) \<le> 0 \<and> (0::int) \<le> 2 \<and> int (length (split ''a b c'')) \<le> 2 * 2 \<and>
   GenerateWordDictAndSample ''a b c'' 0 = Inr ([(''a'', 0), (''b'', 1), (''c'', 2)], []) \<and>
   GenerateWordDictAndSample ''a b c'' 2 = Inr ([(''a'', 0), (''b'', 1), (''c'', 2)], [])"
proof -
  have s: "split ''a b c'' = [''a'', ''b'', ''c'']"
    by code_simp
  have d: "word_dict_of [''a'', ''b'', ''c''] = [(''a'', 0), (''b'', 1), (''c'', 2)]"
    by code_simp
  show ?thesis
    using degenerate_window_no_samples [of 0 "''a b c''"]
      degenerate_window_no_samples [of 2 "''a b c''"]
    unfolding s d by simp
qed

text \<open>
  A negative window is not covered: on the one-word corpus \<^verbatim>\<open>'a'\<close> with window \<open>-2\<close>
  the slice \<^verbatim>\<open>all_words[-2:2]\<close> holds the word, the loop body runs once and
  \<^verbatim>\<open>all_words[0 + (-2)]\<close> raises.
\<close>

theorem negative_window_raises:
  "GenerateWordDictAndSample ''a'' (- 2) = Inl IndexError"
  by code_simp

section \<open>Properties of the circuits\<close>

lemma fold_snoc_map: "fold (\<lambda>i circ. circ @ [f i]) xs c = c @ map f xs"
  by (induction xs arbitrary: c) simp_all

lemma fold_snoc_filter:
  "fold (\<lambda>i circ. if P i then circ @ [f i] else circ) xs c = c @ map f (filter P xs)"
  by (induction xs arbitrary: c) simp_all

lemma GenerateEncoderCircuit_eq:
  "GenerateEncoderCircuit n prefix =
     map (\<lambda>i. RX \<lparr>pname = add_underscore prefix @ str i, encoder_part = True, requires_grad = True\<rparr> i)
       (py_range n)"
  by (simp add: GenerateEncoderCircuit_def Let_def fold_snoc_map as_encoder_def new_param_def
      comp_def)

text \<open>
  Claim C6. For every \<open>n_qubits \<ge> 0\<close> and every prefix, \<^verbatim>\<open>GenerateEncoderCircuit\<close> returns a
  circuit of exactly \<open>n_qubits\<close> gates, the gate \<open>i\<close> being an \<^verbatim>\<open>RX\<close> rotation on the
  qubit \<open>i\<close> whose parameter is named \<open>p + str(i)\<close>, where \<open>p\<close> is the prefix with
  \<^verbatim>\<open>'_'\<close> appended exactly when the prefix is not empty and does not end in \<^verbatim>\<open>'_'\<close>.
\<close>

theorem encoder_circuit_gates:
  assumes "0 \<le> n_qubits"
  shows "length (GenerateEncoderCircuit n_qubits prefix) = nat n_qubits \<and>
         (\<forall>i<nat n_qubits.
            GenerateEncoderCircuit n_qubits prefix ! i =
              RX \<lparr>pname = (if prefix \<noteq> [] \<and> last prefix \<noteq> CHR ''_'' then prefix @ ''_'' else prefix)
                             @ str (int i),
                   encoder_part = True, requires_grad = True\<rparr> (int i))"
  unfolding GenerateEncoderCircuit_eq add_underscore_def by (simp add: py_range_def)

theorem encoder_circuit_gates_witness:
  "(0::int) \<le> 3 \<and>
   GenerateEncoderCircuit 3 ''e'' =
     [RX \<lparr>pname = ''e_0'', encoder_part = True, requires_grad = True\<rparr> 0,
      RX \<lparr>pname = ''e_1'', encoder_part = True, requires_grad = True\<rparr> 1,
      RX \<lparr>pname = ''e_2'', encoder_part = True, requires_grad = True\<rparr> 2] \<and>
   length (GenerateEncoderCircuit 3 ''e'') = nat 3 \<and>
   GenerateEncoderCircuit 3 ''e'' ! 1 = RX \<lparr>pname = ''e_'' @ str (int 1), encoder_part = True, requires_grad = True\<rparr> (int 1)"
proof -
  have r: "GenerateEncoderCircuit 3 ''e'' =
     [RX \<lparr>pname = ''e_0'', encoder_part = True, requires_grad = True\<rparr> 0,
      RX \<lparr>pname = ''e_1'', encoder_part = True, requires_grad = True\<rparr> 1,
      RX \<lparr>pname = ''e_2'', encoder_part = True, requires_grad = True\<rparr> 2]"
    by code_simp
  have "(0::int) \<le> 3" by simp
  from encoder_circuit_gates [OF this, of "''e''"]
  have "length (GenerateEncoderCircuit 3 ''e'') = nat 3"
    and "GenerateEncoderCircuit 3 ''e'' ! 1 = RX \<lparr>pname = ''e_'' @ str (int 1), encoder_part = True, requires_grad = True\<rparr> (int 1)"
    by simp_all
  with r show ?thesis by simp
qed

lemma filter_less_upt: "c \<le> m \<Longrightarrow> filter (\<lambda>k. k < c) [0..<m] = [0..<c]"
proof (induction m)
  case 0
  then show ?case by simp
next
  case (Suc m)
  show ?case
  proof (cases "c = Suc m")
    case True
    have "filter (\<lambda>k. k < Suc m) [0..<Suc m] = [0..<Suc m]"
      by (rule filter_True) simp
    with True show ?thesis by simp
  next
    case False
    with Suc show ?thesis by simp
  qed
qed

lemma cnot_condition:
  assumes "0 \<le> r" and "r \<le> 1"
  shows "(r + 2 * int k + 1 < n) = (k < nat ((n - r) div 2))"
  using assms by (cases "0 \<le> (n - r) div 2") (simp_all add: nat_less_iff zless_nat_eq_int_zless, presburger+)

lemma cnot_bound:
  "nat ((n - l mod 2) div 2) \<le> nat n"
  "nat ((n - l mod 2) div 2) \<le> nat ((n - l mod 2 + 1) div 2)"
  by (cases "0 \<le> n"; simp add: nat_le_iff; presburger)+

lemma controls_filter:
  assumes "nat ((n - l mod 2) div 2) \<le> m"
  shows "filter (\<lambda>i. i + 1 < n) (map (\<lambda>k. l mod 2 + 2 * int k) [0..<m])
           = map (\<lambda>k. l mod 2 + 2 * int k) [0..<nat ((n - l mod 2) div 2)]"
proof -
  have "(\<lambda>i. i + 1 < n) \<circ> (\<lambda>k. l mod 2 + 2 * int k) = (\<lambda>k. k < nat ((n - l mod 2) div 2))"
    using cnot_condition [of "l mod 2" _ n] by (auto simp: fun_eq_iff)
  then show ?thesis
    unfolding filter_map by (simp only: filter_less_upt [OF assms])
qed

lemma cnot_controls_eq:
  "cnot_controls n l = map (\<lambda>k. l mod 2 + 2 * int k) [0..<nat ((n - l mod 2) div 2)]"
  unfolding cnot_controls_def by (rule controls_filter) (rule cnot_bound)

lemma code_controls_eq:
  "filter (\<lambda>i. i < n \<and> i + 1 < n) (py_range_by2 (l mod 2) n) = cnot_controls n l"
proof -
  have "(\<lambda>i. i < n \<and> i + 1 < n) = (\<lambda>i. i + 1 < n)"
    by auto
  then show ?thesis
    unfolding cnot_controls_eq py_range_by2_def
    by (simp only: controls_filter [OF cnot_bound(2)])
qed

lemma ansatz_layer_eq:
  "ansatz_layer n p l circ = circ @ ry_gates n p l @ cnot_gates n l"
  unfolding ansatz_layer_def Let_def fold_snoc_map fold_snoc_filter code_controls_eq
  by (simp add: ry_gates_def cnot_gates_def new_param_def)

lemma fold_ansatz_layer:
  "fold (ansatz_layer n p) ls circ = circ @ concat (map (\<lambda>l. ry_gates n p l @ cnot_gates n l) ls)"
  by (induction ls arbitrary: circ) (simp_all add: ansatz_layer_eq)

lemma as_ansatz_layers:
  "as_ansatz (concat (map (\<lambda>l. ry_gates n p l @ cnot_gates n l) ls))
     = concat (map (\<lambda>l. ry_gates n p l @ cnot_gates n l) ls)"
  by (induction ls) (simp_all add: as_ansatz_def ry_gates_def cnot_gates_def)

lemma GenerateAnsatzCircuit_eq:
  "GenerateAnsatzCircuit n layers prefix =
     concat (map (\<lambda>l. ry_gates n (add_underscore prefix) l @ cnot_gates n l) (py_range layers))"
  by (simp add: GenerateAnsatzCircuit_def Let_def fold_ansatz_layer as_ansatz_layers)

text \<open>
  Claim C7, with the count of \<^verbatim>\<open>CNOT\<close> gates cut off at zero. For \<open>n_qubits \<ge> 0\<close> and
  \<open>layers \<ge> 0\<close>, \<^verbatim>\<open>GenerateAnsatzCircuit\<close> returns the layers \<open>0, ..., layers - 1\<close> one
  after the other, the layer \<open>l\<close> being the \<open>n_qubits\<close> gates \<^verbatim>\<open>RY\<close> named
  \<open>p + str(l) + '_' + str(i)\<close> followed by the gates \<^verbatim>\<open>X(i + 1, i)\<close> for
  \<open>i = l % 2, l % 2 + 2, ...\<close> with \<open>i + 1 < n_qubits\<close>, of which there are
  \<open>max(0, floor((n_qubits - l % 2) / 2))\<close>.
\<close>

theorem ansatz_circuit_layers:
  assumes "0 \<le> n_qubits" and "0 \<le> layers"
  shows "GenerateAnsatzCircuit n_qubits layers prefix =
           concat (map (\<lambda>l. ry_gates n_qubits
                               (if prefix \<noteq> [] \<and> last prefix \<noteq> CHR ''_'' then prefix @ ''_'' else prefix) l
                             @ cnot_gates n_qubits l)
                     (py_range layers)) \<and>
         length (py_range layers) = nat layers \<and>
         (\<forall>l p. length (ry_gates n_qubits p l) = nat n_qubits \<and>
                cnot_gates n_qubits l =
                  map (\<lambda>k. X (l mod 2 + 2 * int k + 1) (l mod 2 + 2 * int k))
                    [0..<nat ((n_qubits - l mod 2) div 2)] \<and>
                int (length (cnot_gates n_qubits l)) = max 0 ((n_qubits - l mod 2) div 2))"
proof -
  have "cnot_gates n_qubits l =
      map (\<lambda>k. X (l mod 2 + 2 * int k + 1) (l mod 2 + 2 * int k))
        [0..<nat ((n_qubits - l mod 2) div 2)]" for l
    unfolding cnot_gates_def cnot_controls_eq by (simp add: comp_def)
  moreover have "int (length (cnot_gates n_qubits l)) = max 0 ((n_qubits - l mod 2) div 2)" for l
    unfolding cnot_gates_def cnot_controls_eq by simp
  moreover have "length (ry_gates n_qubits p l) = nat n_qubits" for p l
    by (simp add: ry_gates_def py_range_def)
  ultimately show ?thesis
    unfolding GenerateAnsatzCircuit_eq add_underscore_def by (simp add: py_range_def)
qed

theorem ansatz_circuit_layers_witness:
  "(0::int) \<le> 5 \<and> (0::int) \<le> 2 \<and>
   GenerateAnsatzCircuit 5 2 ''a'' =
     ry_gates 5 ''a_'' 0 @ [X 1 0, X 3 2] @ ry_gates 5 ''a_'' 1 @ [X 2 1, X 4 3] \<and>
   int (length (cnot_gates 5 1)) = max 0 ((5 - 1 mod 2) div 2)"
proof -
  have c: "cnot_gates 5 0 = [X 1 0, X 3 2]" "cnot_gates 5 1 = [X 2 1, X 4 3]"
    by code_simp+
  have r: "py_range 2 = [0, 1]"
    by code_simp
  have "(0::int) \<le> 5" and "(0::int) \<le> 2" by simp_all
  from ansatz_circuit_layers [OF this, of "''a''"]
  have "GenerateAnsatzCircuit 5 2 ''a'' =
      concat (map (\<lambda>l. ry_gates 5 ''a_'' l @ cnot_gates 5 l) (py_range 2))"
    and "int (length (cnot_gates 5 1)) = max 0 ((5 - 1 mod 2) div 2)"
    by simp_all
  then show ?thesis
    unfolding r by (simp add: c)
qed

text \<open>
  The count \<open>floor((n_qubits - l % 2) / 2)\<close> itself is \<open>-1\<close> for no qubits and an odd
  layer, where the layer is empty.
\<close>

theorem ansatz_zero_qubits_odd_layer:
  "GenerateAnsatzCircuit 0 2 ''a'' = [] \<and> ansatz_layer 0 ''a_'' 1 [] = [] \<and>
   int (length (ansatz_layer 0 ''a_'' 1 [])) \<noteq> (0 - 1 mod 2) div 2"
proof -
  have "GenerateAnsatzCircuit 0 2 ''a'' = []" and e: "ansatz_layer 0 ''a_'' 1 [] = []"
    by code_simp+
  moreover have "int (length ([] :: Circuit)) \<noteq> (0 - 1 mod 2) div 2"
    by simp
  ultimately show ?thesis by simp
qed

section \<open>Properties of the Hamiltonian\<close>

lemma of_char_digit_char: "d < 10 \<Longrightarrow> of_char (digit_char d) = 48 + d"
  by (simp add: digit_char_def)

lemma digit_char_not_space: "d < 10 \<Longrightarrow> \<not> isspace (digit_char d)"
  by (simp add: isspace_def of_char_digit_char)

lemma dec_digits_not_empty: "dec_digits n \<noteq> []"
  by (subst dec_digits.simps) simp

lemma dec_digits_not_space: "c \<in> set (dec_digits n) \<Longrightarrow> \<not> isspace c"
proof (induction n rule: dec_digits.induct)
  case (1 n)
  have "n mod 10 < 10" by simp
  then have "\<not> isspace (digit_char (n mod 10))"
    by (rule digit_char_not_space)
  with 1 show ?case
    by (subst (asm) (2) dec_digits.simps) (auto simp: digit_char_not_space split: if_splits)
qed

lemma dec_digits_value:
  "foldl (\<lambda>a c. 10 * a + (of_char c - 48)) 0 (dec_digits n) = n"
proof (induction n rule: dec_digits.induct)
  case (1 n)
  show ?case
  proof (cases "n < 10")
    case True
    then show ?thesis
      by (subst dec_digits.simps) (simp add: of_char_digit_char)
  next
    case False
    have "n mod 10 < 10" by simp
    then have "of_char (digit_char (n mod 10)) = 48 + n mod 10"
      by (rule of_char_digit_char)
    with False 1 show ?thesis
      by (subst dec_digits.simps) simp
  qed
qed

lemma dec_digits_inj:
  assumes "dec_digits n = dec_digits m"
  shows "n = m"
proof -
  have "n = foldl (\<lambda>a c. 10 * a + (of_char c - 48)) 0 (dec_digits n)"
    by (simp only: dec_digits_value)
  also have "\<dots> = foldl (\<lambda>a c. 10 * a + (of_char c - 48)) 0 (dec_digits m)"
    by (simp only: assms)
  also have "\<dots> = m"
    by (simp only: dec_digits_value)
  finally show ?thesis .
qed

lemma str_nat_inj: "str (int j) = str (int k) \<Longrightarrow> j = k"
  by (simp add: str_def dec_digits_inj)

lemma str_nat_not_space: "c \<in> set (str (int j)) \<Longrightarrow> \<not> isspace c"
  by (simp add: str_def dec_digits_not_space)

lemma str_nat_not_empty: "str (int j) \<noteq> []"
  by (simp add: str_def dec_digits_not_empty)

lemma space_is_space: "isspace CHR '' ''" and Z_not_space: "\<not> isspace CHR ''Z''"
  by (simp_all add: isspace_def)

lemma first_separator:
  "xs @ c # r = ys @ c # r' \<Longrightarrow> c \<notin> set xs \<Longrightarrow> c \<notin> set ys \<Longrightarrow> xs = ys \<and> r = r'"
proof (induction xs arbitrary: ys)
  case Nil
  then show ?case by (cases ys) auto
next
  case (Cons x xs)
  then show ?case by (cases ys) auto
qed

lemma strip_trailing_space:
  assumes "s \<noteq> []" and "\<not> isspace (hd s)" and "\<not> isspace (last s)" and "isspace c"
  shows "strip (s @ [c]) = s"
proof -
  from assms have "dropWhile isspace (s @ [c]) = s @ [c]"
    by (cases s) simp_all
  moreover from assms have "dropWhile isspace (rev s) = rev s"
    by (cases "rev s") (simp_all add: last_rev [symmetric] hd_rev)
  ultimately show ?thesis
    using assms by (simp add: strip_def)
qed

lemma fold_ham_terms:
  "fold (\<lambda>(j, k) s. if k = CHR ''1'' then s @ ''Z'' @ str (int j) @ '' '' else s) ps s0
     = s0 @ concat (map (\<lambda>j. ''Z'' @ str (int j) @ '' '')
                      (map fst (filter (\<lambda>(j, k). k = CHR ''1'') ps)))"
  by (induction ps arbitrary: s0) (simp_all add: case_prod_unfold)

lemma length_bin_digits_Suc:
  "\<not> n < 2 \<Longrightarrow> length (bin_digits n) = Suc (length (bin_digits (n div 2)))"
  by (subst bin_digits.simps) simp

lemma less_power_length_bin_digits: "n < 2 ^ length (bin_digits n)"
proof (induction n rule: bin_digits.induct)
  case (1 n)
  show ?case
  proof (cases "n < 2")
    case True
    then show ?thesis by (subst bin_digits.simps) simp
  next
    case False
    with 1 have "n div 2 < 2 ^ length (bin_digits (n div 2))" by simp
    then have "n < 2 * 2 ^ length (bin_digits (n div 2))" by linarith
    with False show ?thesis by (simp add: length_bin_digits_Suc)
  qed
qed

lemma length_bin_digits_le: "0 < n \<Longrightarrow> length (bin_digits n) \<le> n"
proof (induction n rule: bin_digits.induct)
  case (1 n)
  show ?case
  proof (cases "n < 2")
    case True
    with 1 show ?thesis by (subst bin_digits.simps) simp
  next
    case False
    then have "0 < n div 2" by simp
    with False 1 have "length (bin_digits (n div 2)) \<le> n div 2" by simp
    with False show ?thesis by (simp add: length_bin_digits_Suc)
  qed
qed

lemma enumerate_rev_bin_digits:
  "map fst (filter (\<lambda>(j, k). k = CHR ''1'') (List.enumerate m (rev (bin_digits n))))
     = filter (\<lambda>j. odd (n div 2 ^ (j - m))) [m..<m + length (bin_digits n)]"
proof (induction n arbitrary: m rule: bin_digits.induct)
  case (1 n)
  show ?case
  proof (cases "n < 2")
    case True
    then have "n = 0 \<or> n = 1" by auto
    then show ?thesis
      by (subst (1 2) bin_digits.simps) auto
  next
    case False
    let ?h = "n div 2"
    have d: "(digit_char (n mod 2) = CHR ''1'') = odd n"
      using digit_char_bit [of "n mod 2"] by (simp add: odd_iff_mod_2_eq_one)
    have ih: "map fst (filter (\<lambda>(j, k). k = CHR ''1'') (List.enumerate (Suc m) (rev (bin_digits ?h))))
        = filter (\<lambda>j. odd (?h div 2 ^ (j - Suc m))) [Suc m..<Suc m + length (bin_digits ?h)]"
      using False by (rule 1)
    have "filter (\<lambda>j. odd (?h div 2 ^ (j - Suc m))) [Suc m..<Suc m + length (bin_digits ?h)]
        = filter (\<lambda>j. odd (n div 2 ^ (j - m))) [Suc m..<Suc m + length (bin_digits ?h)]"
    proof (rule filter_cong [OF refl])
      fix j assume "j \<in> set [Suc m..<Suc m + length (bin_digits ?h)]"
      then have "j - m = Suc (j - Suc m)" by auto
      then show "odd (?h div 2 ^ (j - Suc m)) = odd (n div 2 ^ (j - m))"
        by (simp add: div_mult2_eq)
    qed
    with ih have rest: "map fst (filter (\<lambda>(j, k). k = CHR ''1'') (List.enumerate (Suc m) (rev (bin_digits ?h))))
        = filter (\<lambda>j. odd (n div 2 ^ (j - m))) [Suc m..<Suc m + length (bin_digits ?h)]"
      by simp
    have r: "rev (bin_digits n) = digit_char (n mod 2) # rev (bin_digits ?h)"
      using False by (subst bin_digits.simps) simp
    have u: "[m..<m + length (bin_digits n)] = m # [Suc m..<Suc m + length (bin_digits ?h)]"
      using False by (simp add: length_bin_digits_Suc upt_conv_Cons del: upt_Suc)
    show ?thesis
      unfolding r u using rest d by simp
  qed
qed

lemma set_bits_eq:
  assumes "0 < n"
  shows "set_bits n = filter (\<lambda>j. odd (n div 2 ^ j)) [0..<length (bin_digits n)]"
proof -
  let ?len = "length (bin_digits n)"
  have "[0..<n] = [0..<?len] @ [?len..<n]"
    using length_bin_digits_le [OF assms] by (metis le_add_diff_inverse upt_add_eq_append zero_le)
  moreover have "filter (\<lambda>j. odd (n div 2 ^ j)) [?len..<n] = []"
  proof -
    have "\<not> odd (n div 2 ^ j)" if "?len \<le> j" for j
    proof -
      from that have "(2::nat) ^ ?len \<le> 2 ^ j" by simp
      with less_power_length_bin_digits [of n] have "n < 2 ^ j" by linarith
      then show ?thesis by simp
    qed
    then show ?thesis by (simp add: filter_empty_conv)
  qed
  ultimately show ?thesis
    by (simp add: set_bits_def)
qed

lemma set_bits_iff: "j \<in> set (set_bits n) \<longleftrightarrow> odd (n div 2 ^ j)"
proof -
  have "j < n" if "odd (n div 2 ^ j)"
  proof (rule ccontr)
    assume "\<not> j < n"
    then have "n \<le> j" by simp
    also have "j < 2 ^ j" by (rule less_exp)
    finally have "n div 2 ^ j = 0" by simp
    with that show False by simp
  qed
  then show ?thesis by (auto simp: set_bits_def)
qed

lemma set_bits_not_empty: "0 < n \<Longrightarrow> set_bits n \<noteq> []"
proof
  assume n: "0 < n" and "set_bits n = []"
  then have "\<forall>j. \<not> odd (n div 2 ^ j)"
    using set_bits_iff [of _ n] by simp
  then have "\<forall>j. \<not> bit n j"
    by (simp add: bit_iff_odd)
  then have "n = 0"
    by (simp add: bit_eq_iff)
  with n show False by simp
qed

lemma set_bits_inj:
  assumes "set_bits a = set_bits b"
  shows "a = b"
proof -
  have "bit a j = bit b j" for j
    using set_bits_iff [of j a] set_bits_iff [of j b] assms by (simp add: bit_iff_odd)
  then show ?thesis by (simp add: bit_eq_iff)
qed

lemma join_with_terminated:
  "js \<noteq> [] \<Longrightarrow> join_with sep (map f js) @ sep = concat (map (\<lambda>j. f j @ sep) js)"
proof (induction js)
  case Nil
  then show ?case by simp
next
  case (Cons j js)
  then show ?case by (cases js) simp_all
qed

lemma hd_join_with: "f j \<noteq> [] \<Longrightarrow> hd (join_with sep (map f (j # js))) = hd (f j)"
  by (cases js) simp_all

lemma join_with_not_empty: "f j \<noteq> [] \<Longrightarrow> join_with sep (map f (j # js)) \<noteq> []"
  by (cases js) simp_all

lemma last_join_with:
  "js \<noteq> [] \<Longrightarrow> (\<And>j. f j \<noteq> []) \<Longrightarrow> last (join_with sep (map f js)) = last (f (last js))"
proof (induction js)
  case Nil
  then show ?case by simp
next
  case (Cons j js)
  show ?case
  proof (cases js)
    case Nil
    then show ?thesis by simp
  next
    case (Cons k ks)
    with Cons.IH Cons.prems(2) have "last (join_with sep (map f js)) = last (f (last js))"
      by simp
    moreover have "join_with sep (map f js) \<noteq> []"
      unfolding Cons using Cons.prems(2) by (rule join_with_not_empty)
    ultimately show ?thesis
      using Cons by simp
  qed
qed

lemma strip_ham_terms:
  assumes "js \<noteq> []"
  shows "strip (concat (map (\<lambda>j. (''Z'' @ str (int j)) @ '' '') js))
           = join_with '' '' (map (\<lambda>j. ''Z'' @ str (int j)) js)"
proof -
  let ?f = "\<lambda>j. ''Z'' @ str (int j)"
  let ?J = "join_with '' '' (map ?f js)"
  from assms obtain j js' where js: "js = j # js'" by (cases js) auto
  have ne: "?J \<noteq> []"
    unfolding js by (rule join_with_not_empty) simp
  have "hd ?J = CHR ''Z''"
    unfolding js by (subst hd_join_with) simp_all
  then have h: "\<not> isspace (hd ?J)"
    by (simp add: Z_not_space)
  have "last ?J = last (?f (last js))"
    using assms by (rule last_join_with) simp
  also have "\<dots> = last (str (int (last js)))"
    by (simp add: str_nat_not_empty)
  finally have "last ?J \<in> set (str (int (last js)))"
    using str_nat_not_empty [of "last js"] by simp
  then have l: "\<not> isspace (last ?J)"
    by (rule str_nat_not_space)
  have "strip (?J @ [CHR '' '']) = ?J"
    using ne h l space_is_space by (rule strip_trailing_space)
  then show ?thesis
    using join_with_terminated [OF assms, of "'' ''" ?f] by simp
qed

lemma ham_terms_inj:
  "concat (map (\<lambda>j. (''Z'' @ str (int j)) @ '' '') js)
     = concat (map (\<lambda>j. (''Z'' @ str (int j)) @ '' '') ks) \<Longrightarrow> js = ks"
proof (induction js arbitrary: ks)
  case Nil
  then show ?case by (cases ks) simp_all
next
  case (Cons j js)
  show ?case
  proof (cases ks)
    case Nil
    with Cons.prems show ?thesis by simp
  next
    case (Cons k ks')
    let ?C = "\<lambda>xs. concat (map (\<lambda>j. (''Z'' @ str (int j)) @ '' '') xs)"
    from Cons.prems Cons
    have "str (int j) @ CHR '' '' # ?C js = str (int k) @ CHR '' '' # ?C ks'"
      by simp
    moreover have "CHR '' '' \<notin> set (str (int j))" and "CHR '' '' \<notin> set (str (int k))"
      using str_nat_not_space space_is_space by blast+
    ultimately have "str (int j) = str (int k) \<and> ?C js = ?C ks'"
      by (rule first_separator)
    then have "j = k" and "js = ks'"
      using Cons.IH by (simp_all add: str_nat_inj)
    with Cons show ?thesis by simp
  qed
qed

lemma pauli_key_inj:
  assumes "0 < a" and "0 < b" and "pauli_key a = pauli_key b"
  shows "a = b"
proof -
  let ?f = "\<lambda>j. ''Z'' @ str (int j)"
  have "join_with '' '' (map ?f (set_bits a)) @ '' '' = join_with '' '' (map ?f (set_bits b)) @ '' ''"
    using assms(3) by (simp add: pauli_key_def)
  then have "concat (map (\<lambda>j. ?f j @ '' '') (set_bits a)) = concat (map (\<lambda>j. ?f j @ '' '') (set_bits b))"
    using join_with_terminated [OF set_bits_not_empty [OF assms(1)], of "'' ''" ?f]
      join_with_terminated [OF set_bits_not_empty [OF assms(2)], of "'' ''" ?f]
    by simp
  then have "set_bits a = set_bits b"
    by (rule ham_terms_inj)
  then show ?thesis
    by (rule set_bits_inj)
qed

lemma strip_ham_string:
  assumes "0 \<le> i"
  shows "strip (ham_string i) = pauli_key (nat (i + 1))"
proof -
  let ?n = "nat (i + 1)"
  from assms have n: "0 < ?n" by simp
  from assms have "slice_back_to_2 (bin (i + 1)) = rev (bin_digits ?n)"
    by (simp add: slice_back_to_2_def bin_def)
  then have "ham_string i = concat (map (\<lambda>j. (''Z'' @ str (int j)) @ '' '') (set_bits ?n))"
    unfolding ham_string_def fold_ham_terms enumerate_rev_bin_digits set_bits_eq [OF n]
    using enumerate_rev_bin_digits [of 0 ?n] by simp
  then show ?thesis
    unfolding pauli_key_def using strip_ham_terms [OF set_bits_not_empty [OF n]] by simp
qed

lemma fold_update_keys:
  "distinct (map f xs) \<Longrightarrow> f ` set xs \<inter> fst ` set h = {} \<Longrightarrow>
   fold (\<lambda>i h. AList.update (f i) v h) xs h = h @ map (\<lambda>i. (f i, v)) xs"
proof (induction xs arbitrary: h)
  case Nil
  then show ?case by simp
next
  case (Cons x xs)
  from Cons.prems have fresh: "f x \<notin> fst ` set h" by auto
  have "f ` set xs \<inter> fst ` set (h @ [(f x, v)]) = {}"
    using Cons.prems by auto
  with Cons.prems have "fold (\<lambda>i h. AList.update (f i) v h) xs (h @ [(f x, v)])
      = (h @ [(f x, v)]) @ map (\<lambda>i. (f i, v)) xs"
    by (intro Cons.IH) simp_all
  then show ?case
    by (simp add: update_fresh [OF fresh])
qed

lemma GenerateEmbeddingHamiltonian_eq:
  "GenerateEmbeddingHamiltonian dims n_qubits = map (\<lambda>i. (pauli_key (i + 1), 1)) [0..<nat dims]"
proof -
  let ?key = "\<lambda>i. strip (ham_string i)"
  have key: "map ?key (py_range dims) = map (\<lambda>i. pauli_key (i + 1)) [0..<nat dims]"
    by (simp add: py_range_def strip_ham_string nat_add_distrib)
  have "inj_on (\<lambda>i. pauli_key (i + 1)) (set [0..<nat dims])"
    by (rule inj_onI) (use pauli_key_inj in fastforce)
  then have "distinct (map ?key (py_range dims))"
    unfolding key by (simp add: distinct_map)
  then have "fold (\<lambda>i h. AList.update (?key i) 1 h) (py_range dims) []
      = [] @ map (\<lambda>i. (?key i, 1::real)) (py_range dims)"
    by (rule fold_update_keys) simp
  then show ?thesis
    unfolding GenerateEmbeddingHamiltonian_def
    by (simp add: py_range_def strip_ham_string nat_add_distrib comp_def)
qed

text \<open>
  Claim C5. For every \<open>dims \<ge> 0\<close>, \<^verbatim>\<open>GenerateEmbeddingHamiltonian\<close> returns a dictionary of
  exactly \<open>dims\<close> entries, each with the value \<open>1.0\<close>; the entry of the index \<open>i\<close> has
  as key the terms \<open>'Z' + str(j)\<close> for the set bits \<open>j\<close> of \<open>i + 1\<close>, lowest bit first,
  joined by single spaces. Two indices never give the same key, so the keys of the
  dictionary are distinct and no entry overwrites another.
\<close>

theorem embedding_hamiltonian_entries:
  assumes "0 \<le> dims"
  shows "GenerateEmbeddingHamiltonian dims n_qubits
           = map (\<lambda>i. (pauli_key (i + 1), 1)) [0..<nat dims] \<and>
         length (GenerateEmbeddingHamiltonian dims n_qubits) = nat dims \<and>
         distinct (map fst (GenerateEmbeddingHamiltonian dims n_qubits)) \<and>
         (\<forall>i j. pauli_key (i + 1) = pauli_key (j + 1) \<longrightarrow> i = j)"
proof -
  have inj: "i = j" if "pauli_key (i + 1) = pauli_key (j + 1)" for i j
    using pauli_key_inj [OF _ _ that] by simp
  then have "inj_on (\<lambda>i. pauli_key (i + 1)) (set [0..<nat dims])"
    by (auto intro: inj_onI)
  then have "distinct (map fst (GenerateEmbeddingHamiltonian dims n_qubits))"
    unfolding GenerateEmbeddingHamiltonian_eq by (simp add: distinct_map comp_def)
  with inj show ?thesis
    by (auto simp: GenerateEmbeddingHamiltonian_eq)
qed

theorem embedding_hamiltonian_entries_witness:
  "(0::int) \<le> 5 \<and>
   GenerateEmbeddingHamiltonian 5 5 =
     [(''Z0'', 1), (''Z1'', 1), (''Z0 Z1'', 1), (''Z2'', 1), (''Z0 Z2'', 1)] \<and>
   GenerateEmbeddingHamiltonian 5 5 = map (\<lambda>i. (pauli_key (i + 1), 1)) [0..<nat 5] \<and>
   length (GenerateEmbeddingHamiltonian 5 5) = nat 5 \<and>
   distinct (map fst (GenerateEmbeddingHamiltonian 5 5))"
proof -
  have r: "GenerateEmbeddingHamiltonian 5 5 =
     [(''Z0'', 1), (''Z1'', 1), (''Z0 Z1'', 1), (''Z2'', 1), (''Z0 Z2'', 1)]"
    by code_simp
  have "(0::int) \<le> 5" by simp
  from embedding_hamiltonian_entries [OF this, of 5]
  have a: "GenerateEmbeddingHamiltonian 5 5 = map (\<lambda>i. (pauli_key (i + 1), 1)) [0..<nat 5]"
    and b: "length (GenerateEmbeddingHamiltonian 5 5) = nat 5"
    and c: "distinct (map fst (GenerateEmbeddingHamiltonian 5 5))"
    by blast+
  show ?thesis
    by (intro conjI) (simp, rule r, rule a, rule b, rule c)
qed

lemma set_bits_power_2: "set_bits (2 ^ q) = [q]"
proof -
  have "odd ((2::nat) ^ q div 2 ^ j) = (j = q)" for j
  proof (cases "j \<le> q")
    case True
    then have "(2::nat) ^ q div 2 ^ j = 2 ^ (q - j)"
      by (simp add: power_diff)
    with True show ?thesis by auto
  next
    case False
    then have "(2::nat) ^ q < 2 ^ j" by simp
    with False show ?thesis by auto
  qed
  then have "set (set_bits (2 ^ q)) = {q}"
    using set_bits_iff [of _ "2 ^ q"] by auto
  moreover have "distinct (set_bits (2 ^ q))"
    by (simp add: set_bits_def)
  ultimately show ?thesis
    by (cases "set_bits (2 ^ q)") (auto simp: subset_singleton_iff)
qed

text \<open>
  Claim C9. The result of \<^verbatim>\<open>GenerateEmbeddingHamiltonian\<close> is the same for any two values
  of \<^verbatim>\<open>n_qubits\<close>. When \<open>dims \<ge> 2 ^ n_qubits\<close> the key \<open>'Z' + str(n_qubits)\<close> is among
  the keys: it names a qubit that a circuit of \<open>n_qubits\<close> qubits does not have, and
  nothing checks it.
\<close>

theorem embedding_hamiltonian_ignores_n_qubits:
  "GenerateEmbeddingHamiltonian dims n1 = GenerateEmbeddingHamiltonian dims n2 \<and>
   (0 \<le> n_qubits \<and> 2 ^ nat n_qubits \<le> dims \<longrightarrow>
      ''Z'' @ str n_qubits \<in> fst ` set (GenerateEmbeddingHamiltonian dims n_qubits))"
proof -
  have "''Z'' @ str n_qubits \<in> fst ` set (GenerateEmbeddingHamiltonian dims n_qubits)"
    if n: "0 \<le> n_qubits" and d: "2 ^ nat n_qubits \<le> dims"
  proof -
    let ?q = "nat n_qubits"
    let ?i = "2 ^ ?q - 1 :: nat"
    have "int ?i < dims"
      using d by (simp add: of_nat_diff)
    then have "?i < nat dims"
      by linarith
    then have "?i \<in> set [0..<nat dims]"
      by simp
    then have "pauli_key (?i + 1) \<in> fst ` set (GenerateEmbeddingHamiltonian dims n_qubits)"
      unfolding GenerateEmbeddingHamiltonian_eq by force
    moreover have "pauli_key (?i + 1) = ''Z'' @ str n_qubits"
      using n by (simp add: pauli_key_def set_bits_power_2)
    ultimately show ?thesis by simp
  qed
  moreover have "GenerateEmbeddingHamiltonian dims n1 = GenerateEmbeddingHamiltonian dims n2"
    by (simp add: GenerateEmbeddingHamiltonian_def)
  ultimately show ?thesis by blast
qed

theorem embedding_hamiltonian_ignores_n_qubits_witness:
  "(0::int) \<le> 2 \<and> (2::int) ^ nat 2 \<le> 5 \<and>
   GenerateEmbeddingHamiltonian 5 2 = GenerateEmbeddingHamiltonian 5 7 \<and>
   ''Z'' @ str 2 \<in> fst ` set (GenerateEmbeddingHamiltonian 5 2) \<and>
   GenerateEmbeddingHamiltonian 5 2 =
     [(''Z0'', 1), (''Z1'', 1), (''Z0 Z1'', 1), (''Z2'', 1), (''Z0 Z2'', 1)]"
proof -
  have r: "GenerateEmbeddingHamiltonian 5 2 =
     [(''Z0'', 1), (''Z1'', 1), (''Z0 Z1'', 1), (''Z2'', 1), (''Z0 Z2'', 1)]"
    by code_simp
  have h: "(0::int) \<le> 2 \<and> (2::int) ^ nat 2 \<le> 5"
    by simp
  from embedding_hamiltonian_ignores_n_qubits [of 5 2 7 2] h
  have a: "GenerateEmbeddingHamiltonian 5 2 = GenerateEmbeddingHamiltonian 5 7"
    and b: "''Z'' @ str 2 \<in> fst ` set (GenerateEmbeddingHamiltonian 5 2)"
    by blast+
  show ?thesis
    using h by (intro conjI) (simp, simp, rule a, rule b, rule r)
qed

section \<open>Properties of the floating-point operations\<close>

text \<open>
  Rounding leaves a number with few enough bits as it is, so \<^verbatim>\<open>np.pi\<close> is a double and
  its single-precision neighbour is \<open>13176795 / 2 ^ 22\<close>, which lies above \<open>pi\<close>. The
  qubit count in double precision is the exact ceiling of the logarithm up to
  \<open>k = 2 ^ 49\<close>, and one less at \<open>k = 2 ^ 49 + 1\<close>.
\<close>

lemma round_half_even_int [simp]: "round_half_even (of_int n) = n"
  by (simp add: round_half_even_def)

lemma round_half_even_below:
  "of_int n \<le> y \<Longrightarrow> y < of_int n + 1 / 2 \<Longrightarrow> round_half_even y = n"
proof -
  assume a: "of_int n \<le> y" "y < of_int n + 1 / 2"
  then have "\<lfloor>y\<rfloor> = n" by linarith
  with a show ?thesis by (simp add: round_half_even_def)
qed

lemma round_half_even_above:
  "of_int n + 1 / 2 < y \<Longrightarrow> n + 1 \<le> round_half_even y"
proof -
  assume a: "of_int n + 1 / 2 < y"
  then have f: "n \<le> \<lfloor>y\<rfloor>" by linarith
  show ?thesis
  proof (cases "n < \<lfloor>y\<rfloor>")
    case True
    then show ?thesis by (auto simp: round_half_even_def Let_def)
  next
    case False
    with f have "\<lfloor>y\<rfloor> = n" by simp
    with a show ?thesis by (simp add: round_half_even_def)
  qed
qed

lemma round_half_even_le: "y \<le> of_int N \<Longrightarrow> round_half_even y \<le> N"
proof -
  assume a: "y \<le> of_int N"
  show ?thesis
  proof (cases "y = of_int N")
    case True
    then show ?thesis by simp
  next
    case False
    with a have "y < of_int N" by simp
    then have "\<lfloor>y\<rfloor> < N" by linarith
    then show ?thesis by (auto simp: round_half_even_def Let_def)
  qed
qed

lemma ln2_upper: "ln (2::real) \<le> 5 / 6"
proof -
  have "ln (3 / 2 * (4 / 3) :: real) = ln (3 / 2) + ln (4 / 3)"
    by (rule ln_mult_pos) simp_all
  then have "ln (2::real) = ln (3 / 2) + ln (4 / 3)"
    by simp
  moreover have "ln (1 + 1 / 2 :: real) \<le> 1 / 2" and "ln (1 + 1 / 3 :: real) \<le> 1 / 3"
    by (rule ln_add_one_self_le_self, simp)+
  ultimately show ?thesis by simp
qed

lemma ln2_lower: "1 / 2 < ln (2::real)"
proof -
  have "exp (1 / 2 :: real) ^ 2 = exp 1"
    by (simp flip: exp_of_nat_mult)
  also have "\<dots> \<le> 3" by (rule exp_le)
  finally have "exp (1 / 2 :: real) ^ 2 < 2 ^ 2" by simp
  then have "exp (1 / 2 :: real) < 2"
    by (rule power2_less_imp_less) simp
  then show ?thesis
    by (metis exp_less_cancel_iff exp_ln zero_less_numeral)
qed

lemma log2_one_plus_lower:
  assumes "0 < y" and "y \<le> 1 / 8"
  shows "y < log 2 (1 + y)"
proof -
  have "y * ln 2 \<le> y * (5 / 6)"
    using assms ln2_upper by simp
  also have "\<dots> < y - y\<^sup>2"
  proof -
    have "y\<^sup>2 \<le> y * (1 / 8)"
      using assms by (simp add: power2_eq_square)
    with assms show ?thesis by simp
  qed
  also have "\<dots> \<le> ln (1 + y)"
    using assms by (intro ln_one_plus_pos_lower_bound) simp_all
  finally have "y * ln 2 < ln (1 + y)" .
  then show ?thesis
    by (simp add: log_def pos_less_divide_eq)
qed

lemma log2_one_plus_upper:
  assumes "0 < y"
  shows "log 2 (1 + y) < 2 * y"
proof -
  have "ln (1 + y) \<le> y"
    using assms by (intro ln_add_one_self_le_self) simp
  also have "\<dots> < 2 * y * ln 2"
  proof -
    have "y * 1 < y * (2 * ln 2)"
      using assms ln2_lower by (intro mult_strict_left_mono) simp_all
    then show ?thesis by simp
  qed
  finally show ?thesis
    by (simp add: log_def pos_divide_less_eq)
qed

lemma floor_log2_eq:
  assumes "2 powr of_int e \<le> x" and "x < 2 powr of_int (e + 1)"
  shows "\<lfloor>log 2 x\<rfloor> = e"
proof -
  have "0 < (2::real) powr of_int e" by simp
  with assms(1) have "0 < x" by linarith
  then show ?thesis
    using assms by (simp add: floor_log_eq_powr_iff)
qed

lemma round_to_unit:
  assumes "0 < x" and "2 powr of_int e \<le> x" and "x < 2 powr of_int (e + 1)"
  shows "round_to p x =
           of_int (round_half_even (x / 2 powr of_int (e - int p + 1))) * 2 powr of_int (e - int p + 1)"
  using assms floor_log2_eq [OF assms(2,3)] by (simp add: round_to_def Let_def)

lemma round_to_exact:
  assumes "0 < x" and "2 powr of_int e \<le> x" and "x < 2 powr of_int (e + 1)"
    and "x = of_int M * 2 powr of_int (e - int p + 1)"
  shows "round_to p x = x"
proof -
  have "x / 2 powr of_int (e - int p + 1) = of_int M"
    using assms(4) by simp
  then show ?thesis
    unfolding round_to_unit [OF assms(1-3)] using assms(4) by simp
qed

lemma float64_np_pi: "float64 np_pi = np_pi"
proof -
  have "round_to 53 np_pi = np_pi"
  proof (rule round_to_exact [where e = 1 and M = 7074237752028440])
    show "0 < np_pi" by (simp add: np_pi_def)
    show "2 powr of_int 1 \<le> np_pi" by (simp add: np_pi_def)
    show "np_pi < 2 powr of_int (1 + 1)" by (simp add: np_pi_def)
    show "np_pi = of_int 7074237752028440 * 2 powr of_int (1 - int 53 + 1)"
      by (simp add: np_pi_def powr_minus)
  qed
  then show ?thesis by (simp add: float64_def)
qed

lemma float32_np_pi: "float32 np_pi = 13176795 / 2 ^ 22"
proof -
  have u: "(2::real) powr of_int (1 - int 24 + 1) = 1 / 2 ^ 22"
    by (simp add: powr_minus inverse_eq_divide)
  have "round_half_even (np_pi / (1 / 2 ^ 22)) = 13176795"
  proof (rule antisym)
    show "round_half_even (np_pi / (1 / 2 ^ 22)) \<le> 13176795"
      by (rule round_half_even_le) (simp add: np_pi_def)
    have "13176794 + 1 \<le> round_half_even (np_pi / (1 / 2 ^ 22))"
      by (rule round_half_even_above) (simp add: np_pi_def)
    then show "13176795 \<le> round_half_even (np_pi / (1 / 2 ^ 22))" by simp
  qed
  moreover have "round_to 24 np_pi =
      of_int (round_half_even (np_pi / 2 powr of_int (1 - int 24 + 1))) * 2 powr of_int (1 - int 24 + 1)"
    by (rule round_to_unit) (simp_all add: np_pi_def)
  ultimately show ?thesis
    unfolding u by (simp add: float32_def)
qed

lemma powr2_of_int: "0 \<le> i \<Longrightarrow> (2::real) powr of_int i = 2 ^ nat i"
  by (simp add: powr_real_of_int)

lemma float64_of_int:
  assumes "1 \<le> k" and "k < 2 ^ 53"
  shows "float64 (of_int k) = of_int k"
proof -
  define e where "e = \<lfloor>log 2 (of_int k)\<rfloor>"
  have pos: "0 < (of_int k :: real)" using assms by simp
  have lo: "(2::real) powr of_int e \<le> of_int k" and hi: "of_int k < (2::real) powr of_int (e + 1)"
    using floor_log_eq_powr_iff [of "of_int k" 2 e] pos by (simp_all add: e_def)
  have "0 \<le> log 2 (of_int k)"
    using assms by simp
  then have e0: "0 \<le> e" by (simp add: e_def)
  have "(2::real) powr of_int e < 2 powr of_int 53"
  proof -
    have "(of_int k :: real) < 2 ^ 53" using assms(2) by (metis of_int_less_numeral_power_cancel_iff)
    with lo show ?thesis by simp
  qed
  then have "(of_int e :: real) < of_int 53"
    by (subst (asm) powr_less_cancel_iff) simp_all
  then have e52: "e \<le> 52" by simp
  define M where "M = k * 2 ^ nat (52 - e)"
  have "(2::real) powr of_int (e - int 53 + 1) = 2 powr (- of_int (52 - e))"
    by simp
  also have "\<dots> = inverse (2 powr of_int (52 - e))"
    by (rule powr_minus)
  also have "\<dots> = inverse (2 ^ nat (52 - e))"
    using e52 by (subst powr2_of_int) simp_all
  finally have u: "(2::real) powr of_int (e - int 53 + 1) = inverse (2 ^ nat (52 - e))" .
  have "of_int k = of_int M * (2::real) powr of_int (e - int 53 + 1)"
    unfolding u by (simp add: M_def)
  with pos lo hi have "round_to 53 (of_int k) = of_int k"
    by (rule round_to_exact)
  then show ?thesis by (simp add: float64_def)
qed

lemma ceiling_float64_above_int:
  fixes p :: int and x :: real
  assumes p: "1 \<le> p" "p < 64" and lo: "of_int p + 2 powr (- 48) < x" and hi: "x < of_int p + 1"
  shows "\<lceil>float64 x\<rceil> = p + 1"
proof -
  define e where "e = \<lfloor>log 2 (of_int p)\<rfloor>"
  have ppos: "0 < (of_int p :: real)" using p by simp
  have elo: "(2::real) powr of_int e \<le> of_int p" and ehi: "of_int p < (2::real) powr of_int (e + 1)"
    using floor_log_eq_powr_iff [of "of_int p" 2 e] ppos by (simp_all add: e_def)
  have "0 \<le> log 2 (of_int p)" using p by simp
  then have e0: "0 \<le> e" by (simp add: e_def)
  have "(2::real) powr of_int e < 2 powr of_int 6"
  proof -
    have "(of_int p :: real) < 64" using p by simp
    with elo show ?thesis by simp
  qed
  then have "(of_int e :: real) < of_int 6"
    by (subst (asm) powr_less_cancel_iff) simp_all
  then have e5: "e \<le> 5" by simp
  have pw: "(2::real) powr of_int (e + 1) = of_int (2 ^ nat (e + 1))"
    using e0 by (subst powr2_of_int) simp_all
  have "p < 2 ^ nat (e + 1)"
    using ehi unfolding pw by (simp only: of_int_less_iff)
  then have "p + 1 \<le> 2 ^ nat (e + 1)" by simp
  then have "(of_int (p + 1) :: real) \<le> of_int (2 ^ nat (e + 1))"
    by (simp only: of_int_le_iff)
  then have p1: "of_int p + 1 \<le> (2::real) powr of_int (e + 1)"
    unfolding pw by simp
  have xpos: "0 < x" using lo ppos by (smt (verit) powr_gt_zero)
  have xlo: "2 powr of_int e \<le> x" using elo lo by (smt (verit) powr_gt_zero)
  have xhi: "x < 2 powr of_int (e + 1)" using hi p1 by linarith
  define u :: real where "u = 2 powr of_int (e - int 53 + 1)"
  have upos: "0 < u" by (simp add: u_def)
  have r: "float64 x = of_int (round_half_even (x / u)) * u"
    unfolding float64_def u_def using xpos xlo xhi by (rule round_to_unit)
  have uinv: "u = inverse (2 ^ nat (52 - e))"
  proof -
    have "u = 2 powr (- of_int (52 - e))" by (simp add: u_def)
    also have "\<dots> = inverse (2 powr of_int (52 - e))" by (rule powr_minus)
    also have "\<dots> = inverse (2 ^ nat (52 - e))" using e5 by (subst powr2_of_int) simp_all
    finally show ?thesis .
  qed
  define P where "P = p * 2 ^ nat (52 - e)"
  have pP: "of_int p / u = of_int P" and p1P: "(of_int p + 1) / u = of_int (P + 2 ^ nat (52 - e))"
    unfolding uinv by (simp_all add: P_def field_simps)
  have half: "1 / 2 \<le> 2 powr (- 48) / u"
  proof -
    have "2 powr (- 48) / u = 2 powr (- 48) * 2 powr of_int (52 - e)"
      unfolding uinv using e5 by (subst powr2_of_int) (simp_all add: divide_inverse)
    also have "\<dots> = 2 powr (- 48 + of_int (52 - e))"
      by (simp only: powr_add)
    also have "\<dots> \<ge> 2 powr (- 1)"
      using e5 by (intro powr_mono) simp_all
    finally show ?thesis by (simp add: powr_minus)
  qed
  have "of_int P + 1 / 2 < x / u"
  proof -
    have "of_int P + 1 / 2 \<le> (of_int p + 2 powr (- 48)) / u"
      using half pP by (simp add: add_divide_distrib)
    also have "\<dots> < x / u"
      using lo upos by (simp add: divide_strict_right_mono)
    finally show ?thesis .
  qed
  then have "P + 1 \<le> round_half_even (x / u)"
    by (rule round_half_even_above)
  then have "of_int (P + 1) * u \<le> float64 x"
    unfolding r using upos by (simp only: of_int_le_iff mult_le_cancel_right_pos)
  moreover have "of_int (P + 1) * u = of_int p + u"
    using pP upos by (simp add: field_simps)
  ultimately have gt: "of_int p < float64 x"
    using upos by linarith
  have "x / u \<le> of_int (P + 2 ^ nat (52 - e))"
    unfolding p1P [symmetric] using hi upos by (simp add: divide_right_mono)
  then have "round_half_even (x / u) \<le> P + 2 ^ nat (52 - e)"
    by (rule round_half_even_le)
  then have "float64 x \<le> of_int (P + 2 ^ nat (52 - e)) * u"
    unfolding r using upos by (simp only: of_int_le_iff mult_le_cancel_right_pos)
  also have "\<dots> = of_int p + 1"
    unfolding p1P [symmetric] using upos by simp
  finally have le: "float64 x \<le> of_int p + 1" .
  from gt le show ?thesis
    by (simp add: ceiling_eq_iff)
qed

lemma float64_of_nonneg_int:
  assumes "0 \<le> k" and "k < 2 ^ 53"
  shows "float64 (of_int k) = of_int k"
proof (cases "k = 0")
  case True
  then show ?thesis by (simp add: float64_def round_to_def)
next
  case False
  with assms(1) have "1 \<le> k" by simp
  then show ?thesis using assms(2) by (rule float64_of_int)
qed

lemma float_ceil_log2_exact:
  assumes "1 \<le> k" and "k \<le> 2 ^ 49"
  shows "float_ceil_log2 k = \<lceil>log 2 (of_int k)\<rceil>"
proof -
  let ?L = "log 2 (of_int k)"
  define p where "p = \<lfloor>?L\<rfloor>"
  have kpos: "0 < (of_int k :: real)" using assms by simp
  have "k < 2 ^ 53" using assms(2) by simp
  with assms(1) have fk: "float64 (of_int k) = of_int k"
    by (rule float64_of_int)
  have lo: "(2::real) powr of_int p \<le> of_int k" and hi: "of_int k < (2::real) powr of_int (p + 1)"
    using floor_log_eq_powr_iff [of "of_int k" 2 p] kpos by (simp_all add: p_def)
  have "0 \<le> ?L" using assms by simp
  then have p0: "0 \<le> p" by (simp add: p_def)
  have pw: "(2::real) powr of_int p = of_int (2 ^ nat p)"
    using p0 by (subst powr2_of_int) simp_all
  have klo: "2 ^ nat p \<le> k"
    using lo unfolding pw by (simp only: of_int_le_iff)
  have Lp: "of_int p \<le> ?L" and Lp1: "?L < of_int p + 1"
    unfolding p_def by linarith+
  show ?thesis
  proof (cases "k = 2 ^ nat p")
    case True
    then have "(of_int k :: real) = 2 ^ nat p" by simp
    then have L: "?L = of_int p"
      using p0 by simp
    have "(2::int) ^ nat p \<le> 2 ^ 49" using True assms(2) by simp
    then have "nat p \<le> 49" by (rule power_le_imp_le_exp [rotated]) simp
    then have "p \<le> 49" using p0 by simp
    then have "p < 2 ^ 53" by simp
    with p0 have "float64 (of_int p) = of_int p"
      by (rule float64_of_nonneg_int)
    then show ?thesis
      by (simp add: float_ceil_log2_def fk L)
  next
    case False
    with klo have k1: "2 ^ nat p + 1 \<le> k" by simp
    have p1: "1 \<le> p"
    proof (rule ccontr)
      assume "\<not> 1 \<le> p"
      with p0 have "p = 0" by simp
      with hi have "(of_int k :: real) < 2" by simp
      then have "k < 2" by linarith
      with assms(1) have "k = 1" by simp
      with \<open>p = 0\<close> False show False by simp
    qed
    have p48: "p \<le> 48"
    proof (rule ccontr)
      assume "\<not> p \<le> 48"
      then have "49 \<le> nat p" by simp
      then have "(2::int) ^ 49 \<le> 2 ^ nat p"
        by (intro power_increasing) simp_all
      with k1 assms(2) show False by simp
    qed
    define y0 :: real where "y0 = 2 powr (- 48)"
    have y0: "0 < y0" "y0 \<le> 1 / 8"
      by (simp_all add: y0_def powr_minus)
    have pwpos: "0 < (2::real) ^ nat p" by simp
    have "y0 \<le> 1 / 2 ^ nat p"
    proof -
      have "(2::real) ^ nat p \<le> 2 ^ 48"
        using p48 by (intro power_increasing) simp_all
      then have "1 / (2::real) ^ 48 \<le> 1 / 2 ^ nat p"
        by (intro divide_left_mono) simp_all
      then show ?thesis by (simp add: y0_def powr_minus inverse_eq_divide)
    qed
    moreover have "1 + 1 / 2 ^ nat p \<le> (of_int k :: real) / 2 ^ nat p"
    proof -
      have "(of_int (2 ^ nat p + 1) :: real) \<le> of_int k"
        using k1 by (simp only: of_int_le_iff)
      then have "((2::real) ^ nat p + 1) / 2 ^ nat p \<le> of_int k / 2 ^ nat p"
        by (intro divide_right_mono) simp_all
      then show ?thesis by (simp add: add_divide_distrib)
    qed
    ultimately have "1 + y0 \<le> (of_int k :: real) / 2 ^ nat p" by linarith
    then have "log 2 (1 + y0) \<le> log 2 (of_int k / 2 ^ nat p)"
      using y0 by (subst log_le_cancel_iff) simp_all
    also have "\<dots> = ?L - of_int p"
      using kpos p0 by (simp add: log_divide_pos)
    finally have "log 2 (1 + y0) \<le> ?L - of_int p" .
    moreover have "y0 < log 2 (1 + y0)"
      using y0 by (rule log2_one_plus_lower)
    ultimately have "of_int p + 2 powr (- 48) < ?L"
      by (simp add: y0_def)
    with p1 p48 have "\<lceil>float64 ?L\<rceil> = p + 1"
      using Lp1 by (intro ceiling_float64_above_int) simp_all
    moreover have "\<lceil>?L\<rceil> = p + 1"
      using \<open>of_int p + 2 powr (- 48) < ?L\<close> Lp1
      by (simp add: ceiling_eq_iff) (smt (verit) powr_gt_zero)
    ultimately show ?thesis
      by (simp add: float_ceil_log2_def fk)
  qed
qed

lemma float_ceil_log2_rounds_down: "float_ceil_log2 (2 ^ 49 + 1) = 49"
  and ceiling_log2_above: "\<lceil>log 2 (of_int (2 ^ 49 + 1))\<rceil> = 50"
proof -
  let ?k = "2 ^ 49 + 1 :: int"
  let ?L = "log 2 (of_int ?k)"
  have fk: "float64 (of_int ?k) = of_int ?k"
    by (rule float64_of_int) simp_all
  define y :: real where "y = 1 / 2 ^ 49"
  have ypos: "0 < y" by (simp add: y_def)
  have "(of_int ?k :: real) = 2 ^ 49 * (1 + y)"
    by (simp add: y_def)
  then have "?L = log 2 (2 ^ 49) + log 2 (1 + y)"
    using ypos by (simp only: log_mult_pos) (subst log_mult_pos, simp_all)
  moreover have "log 2 ((2::real) ^ 49) = 49"
    using log_pow_cancel [of 2 49] by simp
  ultimately have L: "?L = 49 + log 2 (1 + y)"
    by (simp only:)
  have up: "log 2 (1 + y) < 2 * y"
    using ypos by (rule log2_one_plus_upper)
  have lowr: "0 < log 2 (1 + y)"
    using ypos by simp
  have Llo: "49 < ?L" and Lhi: "?L < 49 + 1 / 2 ^ 48"
    using L up lowr by (simp_all add: y_def)
  show "\<lceil>?L\<rceil> = 50"
    using Llo Lhi by (simp add: ceiling_eq_iff)
  have u: "(2::real) powr of_int (5 - int 53 + 1) = 1 / 2 ^ 47"
    by (simp add: powr_minus inverse_eq_divide)
  have "round_to 53 ?L =
      of_int (round_half_even (?L / 2 powr of_int (5 - int 53 + 1))) * 2 powr of_int (5 - int 53 + 1)"
    using Llo Lhi by (intro round_to_unit) simp_all
  moreover have "round_half_even (?L / (1 / 2 ^ 47)) = 49 * 2 ^ 47"
    using Llo Lhi by (intro round_half_even_below) simp_all
  ultimately have "float64 ?L = 49"
    unfolding u by (simp add: float64_def)
  then have "\<lceil>float64 ?L\<rceil> = 49"
    by simp
  then show "float_ceil_log2 ?k = 49"
    unfolding float_ceil_log2_def fk .
qed

lemma arctan_partial_sums:
  fixes x :: real
  assumes "0 \<le> x" and "x \<le> 1"
  shows "(\<Sum>k<2 * n. (- 1) ^ k * (1 / real (k * 2 + 1) * x ^ (k * 2 + 1))) \<le> arctan x"
    and "arctan x \<le> (\<Sum>k<2 * n + 1. (- 1) ^ k * (1 / real (k * 2 + 1) * x ^ (k * 2 + 1)))"
proof -
  let ?a = "\<lambda>k. 1 / real (k * 2 + 1) * x ^ (k * 2 + 1)"
  have ax: "\<bar>x\<bar> \<le> 1" using assms by simp
  have zero: "?a \<longlonglongrightarrow> 0"
    using ax by (rule zeroseq_arctan_series)
  have nonneg: "0 \<le> ?a k" for k
    using assms by simp
  have decr: "?a (Suc k) \<le> ?a k" for k
  proof -
    have "x ^ (Suc k * 2 + 1) \<le> x ^ (k * 2 + 1)"
      using assms by (intro power_decreasing) simp_all
    moreover have "1 / real (Suc k * 2 + 1) \<le> 1 / real (k * 2 + 1)"
      by (intro divide_left_mono) simp_all
    ultimately show ?thesis
      using assms by (intro mult_mono) simp_all
  qed
  have series: "arctan x = (\<Sum>k. (- 1) ^ k * ?a k)"
    using ax by (rule arctan_series)
  show "(\<Sum>k<2 * n. (- 1) ^ k * ?a k) \<le> arctan x"
    unfolding series using zero nonneg decr by (rule summable_Leibniz'(2))
  show "arctan x \<le> (\<Sum>k<2 * n + 1. (- 1) ^ k * ?a k)"
    unfolding series using zero nonneg decr by (rule summable_Leibniz'(4))
qed

lemma pi_less_float32_pi: "pi < 13176795 / 2 ^ 22"
proof -
  have "pi = 16 * arctan (1 / 5) - 4 * arctan (1 / 239)"
    using machin by simp
  moreover have "arctan (1 / 5) \<le> (\<Sum>k<2 * 2 + 1. (- 1) ^ k * (1 / real (k * 2 + 1) * (1 / 5) ^ (k * 2 + 1)))"
    by (rule arctan_partial_sums) simp_all
  moreover have "(\<Sum>k<2 * 1. (- 1) ^ k * (1 / real (k * 2 + 1) * (1 / 239) ^ (k * 2 + 1))) \<le> arctan (1 / 239)"
    by (rule arctan_partial_sums) simp_all
  ultimately show ?thesis
    by (simp add: eval_nat_numeral)
qed

section \<open>Properties of the qubit count and of the round trip\<close>

lemma float_ceil_log2_search:
  assumes "1 \<le> k" and "k \<le> 2 ^ 49"
  shows "float_ceil_log2 k = int (ceil_log2 (nat k))"
proof -
  from assms(1) have "0 < nat k" by simp
  then have "ceil_log2 (nat k) = nat \<lceil>log 2 (real (nat k))\<rceil>"
    by (rule ceil_log2_is_ceiling)
  moreover have "0 \<le> log 2 (real_of_int k)"
    using assms(1) by simp
  then have "0 \<le> \<lceil>log 2 (real_of_int k)\<rceil>"
    by linarith
  moreover have "real (nat k) = real_of_int k"
    using assms(1) by simp
  ultimately show ?thesis
    using float_ceil_log2_exact [OF assms] by simp
qed

lemma slice_bin_nonneg: "0 \<le> v \<Longrightarrow> slice_back_to_2 (bin v) = rev (bin_digits (nat v))"
  by (simp add: slice_back_to_2_def bin_def)

lemma label_bin_chars: "0 \<le> v \<Longrightarrow> set (label_bin v n) \<subseteq> {CHR ''0'', CHR ''1''}"
  using bin_digits_chars [of "nat v"]
  by (auto simp: label_bin_def slice_bin_nonneg ljust_def)

lemma int_of_char_bits:
  "int_of_char CHR ''0'' = Inr 0" "int_of_char CHR ''1'' = Inr 1" "int_of_char CHR ''b'' = Inl ValueError"
  by (simp_all add: int_of_char_def)

lemma float64_bit_times_pi:
  "float64 (of_int 0 * np_pi) = 0" "float64 (of_int 1 * np_pi) = np_pi"
  by (simp_all add: float64_np_pi) (simp add: float64_def round_to_def)

lemma np_pi_not_zero: "np_pi \<noteq> 0"
  by (simp add: np_pi_def)

lemma label_array_bits:
  "set lb \<subseteq> {CHR ''0'', CHR ''1''} \<Longrightarrow>
   label_array lb = Inr (map (\<lambda>c. if c = CHR ''1'' then np_pi else 0) lb)"
proof -
  assume a: "set lb \<subseteq> {CHR ''0'', CHR ''1''}"
  have "(case int_of_char c of Inl e \<Rightarrow> Inl e | Inr d \<Rightarrow> Inr (float64 (of_int d * np_pi)))
      = Inr (if c = CHR ''1'' then np_pi else 0)" if "c \<in> set lb" for c
    using that a float64_bit_times_pi by (auto simp: int_of_char_bits)
  then show ?thesis
    unfolding label_array_def by (rule collect_all_Inr)
qed

lemma decode_chars_label_bin: "0 \<le> v \<Longrightarrow> decode_chars (label_bin v n) = nat v"
proof -
  have "map (\<lambda>c. c = CHR ''1'') (replicate k CHR ''0'') = replicate k False" for k
    by simp
  then show "0 \<le> v \<Longrightarrow> decode_chars (label_bin v n) = nat v"
    by (simp add: decode_chars_def label_bin_def slice_bin_nonneg ljust_def
        little_endian_pad little_endian_rev_bin_digits)
qed

lemma n_qubits_of_exact:
  assumes "word_dict \<noteq> []" and "0 \<le> Max (set (map snd word_dict))"
    and "Max (set (map snd word_dict)) < 2 ^ 49"
  shows "n_qubits_of numpy word_dict = Inr (int (ceil_log2 (nat (1 + Max (set (map snd word_dict))))))"
    and "int (ceil_log2 (nat (1 + Max (set (map snd word_dict)))))
           = \<lceil>log 2 (real_of_int (1 + Max (set (map snd word_dict))))\<rceil>"
    and "v \<in> set (map snd word_dict) \<Longrightarrow> v < 2 ^ ceil_log2 (nat (1 + Max (set (map snd word_dict))))"
proof -
  let ?m = "Max (set (map snd word_dict))"
  have k: "1 \<le> 1 + ?m" "1 + ?m \<le> 2 ^ 49"
    using assms(2,3) by linarith+
  have "(2::int) ^ 49 < 2 ^ 64"
    by simp
  then have "\<not> 2 ^ 64 \<le> 1 + ?m"
    using k(2) by linarith
  moreover have "\<not> 1 + ?m \<le> 0"
    using k(1) by linarith
  ultimately
  have "np_int32_ceil_log2 numpy (1 + ?m) = Inr (float_ceil_log2 (1 + ?m))"
    unfolding np_int32_ceil_log2_def by (simp only: if_False)
  then show "n_qubits_of numpy word_dict = Inr (int (ceil_log2 (nat (1 + ?m))))"
    unfolding n_qubits_of_def float_ceil_log2_search [OF k] using assms(1) by (simp only: if_False)
  show "int (ceil_log2 (nat (1 + ?m))) = \<lceil>log 2 (real_of_int (1 + ?m))\<rceil>"
    using float_ceil_log2_search [OF k] float_ceil_log2_exact [OF k] by simp
  assume "v \<in> set (map snd word_dict)"
  then have "v \<le> ?m" by simp
  moreover have "nat (1 + ?m) \<le> 2 ^ ceil_log2 (nat (1 + ?m))"
    using ceil_log2_le_iff [of "nat (1 + ?m)" "ceil_log2 (nat (1 + ?m))"] by simp
  then have "int (nat (1 + ?m)) \<le> int (2 ^ ceil_log2 (nat (1 + ?m)))"
    by (simp only: of_nat_le_iff)
  then have "1 + ?m \<le> 2 ^ ceil_log2 (nat (1 + ?m))"
    using k(1) by simp
  ultimately show "v < 2 ^ ceil_log2 (nat (1 + ?m))"
    by linarith
qed

text \<open>
  Claim C1. For an id \<open>v\<close> with \<open>0 \<le> v < 2 ^ n\<close> the characters of
  \<^verbatim>\<open>bin(v)[-1:1:-1].ljust(n, '0')\<close>, read as the bits of a little-endian binary number,
  give \<open>v\<close> back; \<^verbatim>\<open>label_array\<close> returns for them, its angle \<open>j\<close> is \<^verbatim>\<open>np.pi\<close> when the
  character \<open>j\<close> is \<^verbatim>\<open>'1'\<close> and \<open>0\<close> otherwise, so it is not zero exactly for \<^verbatim>\<open>'1'\<close>, and
  the angles decode to \<open>v\<close> as well. For a dictionary that is not empty and whose
  greatest id \<open>m\<close> has \<open>0 \<le> m < 2 ^ 49\<close>, the qubit count that \<^verbatim>\<open>GenerateTrainData\<close>
  computes is \<open>n = ceil(log2(1 + m))\<close>, and every id of the dictionary is below \<open>2 ^ n\<close>.
\<close>

theorem label_bin_round_trip:
  "(0 \<le> v \<and> v < 2 ^ n \<longrightarrow>
      decode_chars (label_bin v (int n)) = nat v \<and>
      (\<exists>angles. label_array (label_bin v (int n)) = Inr angles \<and>
         angles = map (\<lambda>c. if c = CHR ''1'' then np_pi else 0) (label_bin v (int n)) \<and>
         decode_angles angles = nat v \<and>
         map (\<lambda>x. x \<noteq> 0) angles = map (\<lambda>c. c = CHR ''1'') (label_bin v (int n)))) \<and>
   (word_dict \<noteq> [] \<and> 0 \<le> Max (set (map snd word_dict)) \<and> Max (set (map snd word_dict)) < 2 ^ 49 \<longrightarrow>
      (\<exists>n_qubits. n_qubits_of numpy word_dict = Inr (int n_qubits) \<and>
         int n_qubits = \<lceil>log 2 (real_of_int (1 + Max (set (map snd word_dict))))\<rceil> \<and>
         (\<forall>v\<in>set (map snd word_dict). v < 2 ^ n_qubits)))"
proof -
  have "decode_chars (label_bin v (int n)) = nat v \<and>
      (\<exists>angles. label_array (label_bin v (int n)) = Inr angles \<and>
         angles = map (\<lambda>c. if c = CHR ''1'' then np_pi else 0) (label_bin v (int n)) \<and>
         decode_angles angles = nat v \<and>
         map (\<lambda>x. x \<noteq> 0) angles = map (\<lambda>c. c = CHR ''1'') (label_bin v (int n)))"
    if v: "0 \<le> v"
  proof -
    let ?lb = "label_bin v (int n)"
    let ?angles = "map (\<lambda>c. if c = CHR ''1'' then np_pi else 0) ?lb"
    have la: "label_array ?lb = Inr ?angles"
      using label_bin_chars [OF v] by (rule label_array_bits)
    have nz: "map (\<lambda>x. x \<noteq> 0) ?angles = map (\<lambda>c. c = CHR ''1'') ?lb"
      by (simp add: np_pi_not_zero)
    have dc: "decode_chars ?lb = nat v"
      using v by (rule decode_chars_label_bin)
    then have "decode_angles ?angles = nat v"
      unfolding decode_angles_def nz by (simp add: decode_chars_def)
    with la nz dc show ?thesis by blast
  qed
  moreover have "\<exists>n_qubits. n_qubits_of numpy word_dict = Inr (int n_qubits) \<and>
         int n_qubits = \<lceil>log 2 (real_of_int (1 + Max (set (map snd word_dict))))\<rceil> \<and>
         (\<forall>v\<in>set (map snd word_dict). v < 2 ^ n_qubits)"
    if "word_dict \<noteq> []" and "0 \<le> Max (set (map snd word_dict))"
      and "Max (set (map snd word_dict)) < 2 ^ 49"
    using n_qubits_of_exact [OF that] by blast
  ultimately show ?thesis by blast
qed

theorem label_bin_round_trip_witness:
  "(0::int) \<le> 2 \<and> (2::int) < 2 ^ 3 \<and>
   label_bin 2 (int 3) = ''010'' \<and> label_array ''010'' = Inr [0, np_pi, 0] \<and>
   decode_chars ''010'' = nat 2 \<and> decode_angles [0, np_pi, 0] = nat 2 \<and>
   [(''I'', 0::int), (''language'', 1), (''love'', 2), (''natural'', 3), (''processing'', 4)] \<noteq> [] \<and>
   Max (set (map snd
     [(''I'', 0::int), (''language'', 1), (''love'', 2), (''natural'', 3), (''processing'', 4)])) = 4 \<and>
   (4::int) < 2 ^ 49 \<and>
   n_qubits_of numpy_raising
     [(''I'', 0), (''language'', 1), (''love'', 2), (''natural'', 3), (''processing'', 4)] = Inr 3 \<and>
   (3::int) = \<lceil>log 2 (real_of_int (1 + 4))\<rceil>"
proof -
  let ?d = "[(''I'', 0::int), (''language'', 1), (''love'', 2), (''natural'', 3), (''processing'', 4)]"
  have lb: "label_bin 2 (int 3) = ''010''"
    by code_simp
  have m: "Max (set (map snd ?d)) = 4"
    by simp
  have la: "label_array ''010'' = Inr [0, np_pi, 0]"
    using label_array_bits [of "''010''"] by simp
  have v: "(0::int) \<le> 2 \<and> (2::int) < 2 ^ 3" by simp
  have d: "?d \<noteq> [] \<and> 0 \<le> Max (set (map snd ?d)) \<and> Max (set (map snd ?d)) < 2 ^ 49"
    unfolding m by simp
  note t = label_bin_round_trip [of 2 3 ?d numpy_raising]
  from t v have dc: "decode_chars (label_bin 2 (int 3)) = nat 2"
    and "\<exists>angles. label_array (label_bin 2 (int 3)) = Inr angles \<and>
           angles = map (\<lambda>c. if c = CHR ''1'' then np_pi else 0) (label_bin 2 (int 3)) \<and>
           decode_angles angles = nat 2 \<and>
           map (\<lambda>x. x \<noteq> 0) angles = map (\<lambda>c. c = CHR ''1'') (label_bin 2 (int 3))"
    by blast+
  then have da: "decode_angles [0, np_pi, 0] = nat 2"
    unfolding lb la by auto
  from t d obtain n_qubits where nq: "n_qubits_of numpy_raising ?d = Inr (int n_qubits)"
    and cl: "int n_qubits = \<lceil>log 2 (real_of_int (1 + Max (set (map snd ?d))))\<rceil>"
    by blast
  have "n_qubits_of numpy_raising ?d = Inr (int (ceil_log2 (nat (1 + Max (set (map snd ?d))))))"
    using d by (intro n_qubits_of_exact(1)) simp_all
  moreover have "ceil_log2 5 = 3"
    by code_simp
  ultimately have n3: "n_qubits_of numpy_raising ?d = Inr 3"
    unfolding m by simp
  with nq have "int n_qubits = 3" by simp
  with cl have c3: "(3::int) = \<lceil>log 2 (real_of_int (1 + 4))\<rceil>"
    unfolding m by simp
  show ?thesis
    using v lb la dc [unfolded lb] da m n3 c3 by (intro conjI) simp_all
qed

text \<open>
  Without the bound on \<open>m\<close> the count can be too small: for \<open>m = 2 ^ 49\<close> the double
  nearest to \<open>log2(2 ^ 49 + 1)\<close> is \<open>49\<close>, so \<open>n = 49\<close> where the ceiling is \<open>50\<close>, and
  the id \<open>2 ^ 49\<close> is not below \<open>2 ^ 49\<close>.
\<close>

theorem n_qubits_rounded_down:
  "n_qubits_of numpy_raising [(''a'', 2 ^ 49)] = Inr 49 \<and>
   \<not> ((2::int) ^ 49 < 2 ^ 49) \<and>
   \<lceil>log 2 (real_of_int (1 + 2 ^ 49))\<rceil> = 50"
proof -
  have "n_qubits_of numpy_raising [(''a'', 2 ^ 49)] = Inr (float_ceil_log2 (2 ^ 49 + 1))"
    by (simp add: n_qubits_of_def np_int32_ceil_log2_def)
  moreover have "\<lceil>log 2 (real_of_int (1 + 2 ^ 49))\<rceil> = 50"
    using ceiling_log2_above by (simp add: add.commute)
  moreover have "float_ceil_log2 (2 ^ 49 + 1) = 49"
    by (rule float_ceil_log2_rounds_down)
  ultimately show ?thesis
    by simp
qed

text \<open>
  A negative id has no encoding: \<^verbatim>\<open>bin(-1)[-1:1:-1]\<close> is \<^verbatim>\<open>'1b'\<close>, and \<^verbatim>\<open>int('b')\<close> raises.
\<close>

lemma negative_id_raises: "label_array (label_bin (- 1) 1) = Inl ValueError"
proof -
  have "label_bin (- 1) 1 = ''1b''"
    by code_simp
  then show ?thesis
    by (simp add: label_array_def int_of_char_bits)
qed

section \<open>Properties of \<^verbatim>\<open>QEmbedding\<close>\<close>

lemma fold_QEmbedding_step:
  "fst (fold (QEmbedding_step n layers) ws (circ, e, a))
     = circ @ concat (map (encoder_ansatz_block n layers) ws)"
  by (induction ws arbitrary: circ e a)
    (simp_all add: QEmbedding_step_def Let_def encoder_ansatz_block_def)

lemma qubits_for_positive:
  assumes "1 \<le> k" and "k < 2 ^ 64"
  shows "qubits_for k = Inr (float_ceil_log2 k)"
proof -
  have "\<not> (2 ^ 64 \<le> k \<or> k < - (2 ^ 63))" "\<not> k < 0" "k \<noteq> 0"
    using assms by auto
  then show ?thesis
    unfolding qubits_for_def by (simp only: if_False)
qed

lemma QEmbedding_blocks:
  assumes "1 \<le> k" and "k < 2 ^ 64"
  shows "QEmbedding k d window layers =
     Inr (UN_H (float_ceil_log2 k) @
          concat (map (encoder_ansatz_block (float_ceil_log2 k) layers) (py_range (2 * window))))"
  unfolding QEmbedding_def qubits_for_positive [OF assms]
  by (simp add: fold_QEmbedding_step)

text \<open>
  Claim C10. The result of \<^verbatim>\<open>QEmbedding\<close> is the same for any two values of
  \<^verbatim>\<open>embedding_dim\<close>, an exception included. For \<open>1 \<le> num_embedding < 2 ^ 64\<close> it is the
  circuit \<^verbatim>\<open>UN(H, n)\<close>, \<open>n\<close> the value of \<^verbatim>\<open>int(np.ceil(np.log2(num_embedding)))\<close> in
  double precision, followed by one block for each \<open>w\<close> of \<^verbatim>\<open>range(2 * window)\<close>, which
  are \<open>0, ..., 2 * window - 1\<close> for a window that is not negative: the encoder with
  prefix \<^verbatim>\<open>'Encoder_' + str(w)\<close> without gradients, then the ansatz with prefix
  \<^verbatim>\<open>'Ansatz_' + str(w)\<close>. Up to \<open>num_embedding = 2 ^ 49\<close> that \<open>n\<close> is
  \<open>ceil(log2(num_embedding))\<close>. The empty circuit of the first assignment and the lists
  of parameter names leave no trace.
\<close>

theorem QEmbedding_ignores_embedding_dim:
  "QEmbedding num_embedding d1 window layers = QEmbedding num_embedding d2 window layers \<and>
   (1 \<le> num_embedding \<and> num_embedding < 2 ^ 64 \<longrightarrow>
      QEmbedding num_embedding d1 window layers =
        Inr (UN_H (float_ceil_log2 num_embedding) @
             concat (map (encoder_ansatz_block (float_ceil_log2 num_embedding) layers)
                       (py_range (2 * window)))) \<and>
      (num_embedding \<le> 2 ^ 49 \<longrightarrow>
         float_ceil_log2 num_embedding = \<lceil>log 2 (real_of_int num_embedding)\<rceil>) \<and>
      (0 \<le> window \<longrightarrow> py_range (2 * window) = map int [0..<2 * nat window]))"
proof -
  have "QEmbedding num_embedding d1 window layers = QEmbedding num_embedding d2 window layers"
    by (simp add: QEmbedding_def)
  moreover have "QEmbedding num_embedding d1 window layers =
        Inr (UN_H (float_ceil_log2 num_embedding) @
             concat (map (encoder_ansatz_block (float_ceil_log2 num_embedding) layers)
                       (py_range (2 * window))))"
    if "1 \<le> num_embedding" and "num_embedding < 2 ^ 64"
    using that by (rule QEmbedding_blocks)
  moreover have "float_ceil_log2 num_embedding = \<lceil>log 2 (real_of_int num_embedding)\<rceil>"
    if "1 \<le> num_embedding" and "num_embedding \<le> 2 ^ 49"
    using that by (rule float_ceil_log2_exact)
  moreover have "py_range (2 * window) = map int [0..<2 * nat window]" if "0 \<le> window"
  proof -
    from that have "nat (2 * window) = 2 * nat window" by simp
    then show ?thesis by (simp add: py_range_def)
  qed
  ultimately show ?thesis by blast
qed

theorem QEmbedding_ignores_embedding_dim_witness:
  "(1::int) \<le> 5 \<and> (5::int) < 2 ^ 64 \<and> (5::int) \<le> 2 ^ 49 \<and> (0::int) \<le> 1 \<and>
   QEmbedding 5 10 1 1 = QEmbedding 5 64 1 1 \<and>
   float_ceil_log2 5 = 3 \<and> \<lceil>log 2 (real_of_int 5)\<rceil> = 3 \<and>
   py_range (2 * 1) = map int [0..<2 * nat 1] \<and>
   QEmbedding 5 10 1 1 =
     Inr ([H 0, H 1, H 2] @
          [RX \<lparr>pname = ''Encoder_0_0'', encoder_part = True, requires_grad = False\<rparr> 0,
           RX \<lparr>pname = ''Encoder_0_1'', encoder_part = True, requires_grad = False\<rparr> 1,
           RX \<lparr>pname = ''Encoder_0_2'', encoder_part = True, requires_grad = False\<rparr> 2] @
          [RY \<lparr>pname = ''Ansatz_0_0_0'', encoder_part = False, requires_grad = True\<rparr> 0,
           RY \<lparr>pname = ''Ansatz_0_0_1'', encoder_part = False, requires_grad = True\<rparr> 1,
           RY \<lparr>pname = ''Ansatz_0_0_2'', encoder_part = False, requires_grad = True\<rparr> 2,
           X 1 0] @
          [RX \<lparr>pname = ''Encoder_1_0'', encoder_part = True, requires_grad = False\<rparr> 0,
           RX \<lparr>pname = ''Encoder_1_1'', encoder_part = True, requires_grad = False\<rparr> 1,
           RX \<lparr>pname = ''Encoder_1_2'', encoder_part = True, requires_grad = False\<rparr> 2] @
          [RY \<lparr>pname = ''Ansatz_1_0_0'', encoder_part = False, requires_grad = True\<rparr> 0,
           RY \<lparr>pname = ''Ansatz_1_0_1'', encoder_part = False, requires_grad = True\<rparr> 1,
           RY \<lparr>pname = ''Ansatz_1_0_2'', encoder_part = False, requires_grad = True\<rparr> 2,
           X 1 0])"
proof -
  have b: "(1::int) \<le> 5 \<and> (5::int) < 2 ^ 64" and c: "(5::int) \<le> 2 ^ 49" and w: "(0::int) \<le> 1"
    by simp_all
  have "ceil_log2 5 = 3"
    by code_simp
  then have f: "float_ceil_log2 5 = 3"
    using float_ceil_log2_search [of 5] by simp
  have r: "UN_H 3 @ concat (map (encoder_ansatz_block 3 1) (py_range (2 * 1))) =
          [H 0, H 1, H 2] @
          [RX \<lparr>pname = ''Encoder_0_0'', encoder_part = True, requires_grad = False\<rparr> 0,
           RX \<lparr>pname = ''Encoder_0_1'', encoder_part = True, requires_grad = False\<rparr> 1,
           RX \<lparr>pname = ''Encoder_0_2'', encoder_part = True, requires_grad = False\<rparr> 2] @
          [RY \<lparr>pname = ''Ansatz_0_0_0'', encoder_part = False, requires_grad = True\<rparr> 0,
           RY \<lparr>pname = ''Ansatz_0_0_1'', encoder_part = False, requires_grad = True\<rparr> 1,
           RY \<lparr>pname = ''Ansatz_0_0_2'', encoder_part = False, requires_grad = True\<rparr> 2,
           X 1 0] @
          [RX \<lparr>pname = ''Encoder_1_0'', encoder_part = True, requires_grad = False\<rparr> 0,
           RX \<lparr>pname = ''Encoder_1_1'', encoder_part = True, requires_grad = False\<rparr> 1,
           RX \<lparr>pname = ''Encoder_1_2'', encoder_part = True, requires_grad = False\<rparr> 2] @
          [RY \<lparr>pname = ''Ansatz_1_0_0'', encoder_part = False, requires_grad = True\<rparr> 0,
           RY \<lparr>pname = ''Ansatz_1_0_1'', encoder_part = False, requires_grad = True\<rparr> 1,
           RY \<lparr>pname = ''Ansatz_1_0_2'', encoder_part = False, requires_grad = True\<rparr> 2,
           X 1 0]"
    by code_simp
  note t = QEmbedding_ignores_embedding_dim [of 5 10 1 1 64]
  from t have i: "QEmbedding 5 10 1 1 = QEmbedding 5 64 1 1"
    by blast
  from t b have q: "QEmbedding 5 10 1 1 =
        Inr (UN_H (float_ceil_log2 5) @
             concat (map (encoder_ansatz_block (float_ceil_log2 5) 1) (py_range (2 * 1))))"
    by blast
  from t b c have l: "float_ceil_log2 5 = \<lceil>log 2 (real_of_int 5)\<rceil>"
    by blast
  from t b w have p: "py_range (2 * 1) = map int [0..<2 * nat 1]"
    by blast
  from b c w i f l [unfolded f, symmetric] p q [unfolded f r]
  show ?thesis
    by (intro conjI) (simp_all only:)
qed

text \<open>
  Above \<open>2 ^ 49\<close> the count need not be the ceiling: \<^verbatim>\<open>QEmbedding(2**49 + 1, 0, 0, 0)\<close> has
  \<open>49\<close> gates \<^verbatim>\<open>H\<close> where \<open>ceil(log2(2 ^ 49 + 1)) = 50\<close>. From \<open>2 ^ 64\<close> on \<^verbatim>\<open>np.log2\<close>
  raises.
\<close>

theorem QEmbedding_qubits_rounded_down:
  "QEmbedding (2 ^ 49 + 1) 0 0 0 = Inr (UN_H 49) \<and>
   \<lceil>log 2 (real_of_int (2 ^ 49 + 1))\<rceil> = 50 \<and>
   UN_H 49 \<noteq> UN_H 50"
proof -
  have "(1::int) \<le> 2 ^ 49 + 1" "(2::int) ^ 49 + 1 < 2 ^ 64"
    by simp_all
  then have "QEmbedding (2 ^ 49 + 1) 0 0 0 =
     Inr (UN_H (float_ceil_log2 (2 ^ 49 + 1)) @
          concat (map (encoder_ansatz_block (float_ceil_log2 (2 ^ 49 + 1)) 0) (py_range (2 * 0))))"
    by (rule QEmbedding_blocks)
  then have "QEmbedding (2 ^ 49 + 1) 0 0 0 = Inr (UN_H 49)"
    unfolding float_ceil_log2_rounds_down by (simp add: py_range_def)
  moreover have "length (UN_H 49) \<noteq> length (UN_H 50)"
    by (simp add: UN_H_def py_range_def)
  then have "UN_H 49 \<noteq> UN_H 50"
    by auto
  ultimately show ?thesis
    using ceiling_log2_above by simp
qed

lemma QEmbedding_huge_raises: "QEmbedding (2 ^ 64) d window layers = Inl TypeError"
  by (simp add: QEmbedding_def qubits_for_def)

section \<open>Properties of the training data\<close>

lemma length_bin_digits_bound: "v < 2 ^ n \<Longrightarrow> 1 \<le> n \<Longrightarrow> length (bin_digits v) \<le> n"
proof (induction v arbitrary: n rule: bin_digits.induct)
  case (1 v)
  show ?case
  proof (cases "v < 2")
    case True
    with 1 show ?thesis by (subst bin_digits.simps) simp
  next
    case False
    from 1(3) obtain n' where n: "n = Suc n'" by (cases n) auto
    with 1(2) have "v div 2 < 2 ^ n'" by simp
    moreover from False this have "1 \<le> n'" by (cases n') auto
    ultimately have "length (bin_digits (v div 2)) \<le> n'"
      using False by (intro 1(1)) simp_all
    with False n show ?thesis by (simp add: length_bin_digits_Suc)
  qed
qed

lemma rev_bin_digits_nth:
  "j < length (bin_digits v) \<Longrightarrow>
   rev (bin_digits v) ! j = (if odd (v div 2 ^ j) then CHR ''1'' else CHR ''0'')"
proof (induction v arbitrary: j rule: bin_digits.induct)
  case (1 v)
  show ?case
  proof (cases "v < 2")
    case True
    then have "v = 0 \<or> v = 1" by auto
    moreover from True 1(2) have "j = 0" by (subst (asm) bin_digits.simps) simp
    ultimately show ?thesis by (subst bin_digits.simps) auto
  next
    case False
    have r: "rev (bin_digits v) = digit_char (v mod 2) # rev (bin_digits (v div 2))"
      using False by (subst bin_digits.simps) simp
    have d: "digit_char (v mod 2) = (if odd v then CHR ''1'' else CHR ''0'')"
      using digit_char_bit [of "v mod 2"] by (auto simp: odd_iff_mod_2_eq_one)
    show ?thesis
    proof (cases j)
      case 0
      with r d show ?thesis by simp
    next
      case (Suc j')
      with 1(2) False have "j' < length (bin_digits (v div 2))"
        by (simp add: length_bin_digits_Suc)
      with False have "rev (bin_digits (v div 2)) ! j'
          = (if odd (v div 2 div 2 ^ j') then CHR ''1'' else CHR ''0'')"
        by (intro 1(1)) simp_all
      with r Suc show ?thesis by (simp add: div_mult2_eq)
    qed
  qed
qed

lemma nat_less_power: "0 \<le> v \<Longrightarrow> v < 2 ^ n \<Longrightarrow> nat v < 2 ^ n"
proof -
  assume "0 \<le> v" and "v < 2 ^ n"
  then have "int (nat v) < int (2 ^ n)" by simp
  then show ?thesis by (simp only: of_nat_less_iff)
qed

lemma odd_nat_div: "0 \<le> v \<Longrightarrow> odd (nat v div 2 ^ j) \<longleftrightarrow> odd (v div 2 ^ j)"
proof -
  assume v: "0 \<le> v"
  then have "nat (v div 2 ^ j) = nat v div nat (2 ^ j)"
    by (rule nat_div_distrib)
  moreover have "nat ((2::int) ^ j) = 2 ^ j"
    by (simp add: nat_power_eq)
  moreover have "0 \<le> v div 2 ^ j"
    using v by (simp add: pos_imp_zdiv_nonneg_iff)
  then have "even (nat (v div 2 ^ j)) \<longleftrightarrow> even (v div 2 ^ j)"
    by (rule even_nat_iff)
  ultimately show ?thesis by simp
qed

lemma length_label_bin:
  assumes "0 \<le> v" and "v < 2 ^ n" and "1 \<le> n"
  shows "length (label_bin v (int n)) = n"
  using length_bin_digits_bound [OF nat_less_power [OF assms(1,2)] assms(3)] assms(1)
  by (simp add: label_bin_def slice_bin_nonneg ljust_def)

lemma label_bin_nth:
  assumes "0 \<le> v" and "v < 2 ^ n" and "1 \<le> n" and "j < n"
  shows "label_bin v (int n) ! j = (if odd (v div 2 ^ j) then CHR ''1'' else CHR ''0'')"
proof (cases "j < length (bin_digits (nat v))")
  case True
  then show ?thesis
    using assms(1)
    by (simp add: label_bin_def slice_bin_nonneg ljust_def nth_append rev_bin_digits_nth odd_nat_div)
next
  case False
  then have "(2::nat) ^ length (bin_digits (nat v)) \<le> 2 ^ j" by simp
  with less_power_length_bin_digits [of "nat v"] have "nat v < 2 ^ j" by linarith
  then have "nat v div 2 ^ j = 0" by simp
  then have "\<not> odd (v div 2 ^ j)"
    using odd_nat_div [OF assms(1), of j] by simp
  with False assms show ?thesis
    by (simp add: label_bin_def slice_bin_nonneg ljust_def nth_append)
qed

lemma float32_zero: "float32 0 = 0"
  by (simp add: float32_def round_to_def)

lemma length_concat_uniform:
  "(\<And>x. x \<in> set xs \<Longrightarrow> length (f x) = n) \<Longrightarrow> length (concat (map f xs)) = length xs * n"
  by (induction xs) simp_all

lemma nth_concat_uniform:
  "(\<And>x. x \<in> set xs \<Longrightarrow> length (f x) = n) \<Longrightarrow> w < length xs \<Longrightarrow> j < n \<Longrightarrow>
   concat (map f xs) ! (n * w + j) = f (xs ! w) ! j"
proof (induction xs arbitrary: w)
  case Nil
  then show ?case by simp
next
  case (Cons x xs)
  have lx: "length (f x) = n" using Cons.prems(1) by simp
  show ?case
  proof (cases w)
    case 0
    with Cons.prems lx show ?thesis by (simp add: nth_append)
  next
    case (Suc w')
    with Cons.prems have "concat (map f xs) ! (n * w' + j) = f (xs ! w') ! j"
      by (intro Cons.IH) simp_all
    moreover have "n * w + j - n = n * w' + j" and "\<not> n * w + j < n"
      using Suc by simp_all
    ultimately show ?thesis
      using Suc lx by (simp add: nth_append del: mult_Suc_right)
  qed
qed

lemma dict_get_known:
  "w \<in> fst ` set d \<Longrightarrow> dict_get d w = Inr (id_of d w) \<and> id_of d w \<in> snd ` set d"
proof -
  assume "w \<in> fst ` set d"
  then obtain v where v: "map_of d w = Some v"
    by (metis map_of_eq_None_iff not_Some_eq)
  then have "(w, v) \<in> set d" by (rule map_of_SomeD)
  then have "v \<in> snd ` set d" by force
  with v show ?thesis by (simp add: dict_get_def id_of_def)
qed

lemma encode_sample_known:
  assumes "set (fst s) \<subseteq> fst ` set d" and "snd s \<in> fst ` set d"
    and "\<forall>v\<in>snd ` set d. 0 \<le> v"
  shows "encode_sample d n s = Inr (concat (map (angles_of d n) (fst s)), id_of d (snd s))"
proof -
  have "encode_word d n w = Inr (angles_of d n w)" if "w \<in> set (fst s)" for w
  proof -
    from that assms(1) have "w \<in> fst ` set d" by auto
    from dict_get_known [OF this] assms(3) have g: "dict_get d w = Inr (id_of d w)"
      and "0 \<le> id_of d w"
      by auto
    from this(2) have "label_array (label_bin (id_of d w) n) = Inr (angles_of d n w)"
      unfolding angles_of_def by (intro label_array_bits label_bin_chars)
    with g show ?thesis by (simp add: encode_word_def)
  qed
  then have "collect (encode_word d n) (fst s) = Inr (map (angles_of d n) (fst s))"
    by (rule collect_all_Inr)
  then show ?thesis
    using dict_get_known [OF assms(2)] by (simp add: encode_sample_def)
qed

lemma as_int32_small: "0 \<le> y \<Longrightarrow> y < 2 ^ 31 \<Longrightarrow> as_int32 y = y"
  by (simp add: as_int32_def)

lemma GenerateTrainData_known:
  assumes nq: "n_qubits_of numpy d = Inr (int n)"
    and wide: "\<And>v. v \<in> snd ` set d \<Longrightarrow> 0 \<le> v \<and> v < 2 ^ n"
    and n1: "1 \<le> n"
    and fit: "\<And>v. v \<in> snd ` set d \<Longrightarrow> v < 2 ^ 63"
    and known: "\<And>s. s \<in> set sample \<Longrightarrow> set (fst s) \<subseteq> fst ` set d \<and> snd s \<in> fst ` set d"
    and same: "\<And>s. s \<in> set sample \<Longrightarrow> length (fst s) = c"
  shows "GenerateTrainData numpy sample d =
           Inr (map (\<lambda>s. map float32 (concat (map (angles_of d (int n)) (fst s)))) sample,
                map (\<lambda>s. as_int32 (id_of d (snd s))) sample)"
proof -
  let ?row = "\<lambda>s. concat (map (angles_of d (int n)) (fst s))"
  have nonneg: "\<forall>v\<in>snd ` set d. 0 \<le> v"
    using wide by blast
  have "encode_sample d (int n) s = Inr (?row s, id_of d (snd s))" if "s \<in> set sample" for s
    using known [OF that] nonneg by (simp add: encode_sample_known)
  then have coll: "collect (encode_sample d (int n)) sample
      = Inr (map (\<lambda>s. (?row s, id_of d (snd s))) sample)"
    by (rule collect_all_Inr)
  have len: "length (?row s) = c * n" if "s \<in> set sample" for s
  proof -
    have "length (angles_of d (int n) w) = n" if "w \<in> set (fst s)" for w
    proof -
      from that known [OF \<open>s \<in> set sample\<close>] have "w \<in> fst ` set d" by auto
      with dict_get_known have "id_of d w \<in> snd ` set d" by blast
      from wide [OF this] n1 show ?thesis
        by (simp add: angles_of_def length_label_bin)
    qed
    then have "length (?row s) = length (fst s) * n"
      by (rule length_concat_uniform)
    with same [OF that] show ?thesis by simp
  qed
  have "list_all (\<lambda>r. length r = length (hd (map ?row sample))) (map ?row sample)"
  proof (cases sample)
    case Nil
    then show ?thesis by simp
  next
    case (Cons s ss)
    then have "length (hd (map ?row sample)) = c * n"
      using len [of s] by simp
    then show ?thesis
      using len by (simp add: list_all_iff)
  qed
  then have rows: "np_array_2d (map ?row sample) = Inr (map ?row sample)"
    by (simp add: np_array_2d_def)
  have "- (2 ^ 63) \<le> id_of d (snd s) \<and> id_of d (snd s) < 2 ^ 63" if "s \<in> set sample" for s
  proof -
    from known [OF that] dict_get_known have y: "id_of d (snd s) \<in> snd ` set d"
      by blast
    from wide [OF y] have "0 \<le> id_of d (snd s)"
      by simp
    with fit [OF y] show ?thesis
      by simp
  qed
  then have "list_all (\<lambda>y. - (2 ^ 63) \<le> y \<and> y < 2 ^ 63) (map (\<lambda>s. id_of d (snd s)) sample)"
    by (simp add: list_all_iff)
  then have labels: "np_array_int32 numpy (map (\<lambda>s. id_of d (snd s)) sample)
      = Inr (map (\<lambda>s. as_int32 (id_of d (snd s))) sample)"
    by (simp add: np_array_int32_def comp_def)
  show ?thesis
    using nq coll rows labels by (simp add: GenerateTrainData_def comp_def)
qed

text \<open>
  Claim C4, for the inputs on which it holds. Let the ids of the dictionary be
  non-negative with the greatest id \<open>m\<close>, \<open>1 \<le> m < 2 ^ 31\<close>, let every word of every
  sample be a key of the dictionary, and let every sample have \<open>c\<close> context words. Then
  \<^verbatim>\<open>GenerateTrainData\<close> returns one row and one label per sample; with
  \<open>n = ceil(log2(1 + m))\<close> a row has length \<open>c * n\<close>, its entry \<open>n * w + j\<close> is
  \<^verbatim>\<open>np.float32(np.pi)\<close> when bit \<open>j\<close> of the id of the context word \<open>w\<close> is set and \<open>0\<close>
  otherwise, and the label \<open>k\<close> is the id of the centre word of the sample \<open>k\<close>.
\<close>

theorem train_data_encoding:
  fixes word_dict :: "(string, int) dict" and sample :: "sample list" and c :: nat
  defines "m \<equiv> Max (set (map snd word_dict))"
  defines "n \<equiv> nat \<lceil>log 2 (real_of_int (1 + m))\<rceil>"
  assumes "word_dict \<noteq> []"
    and "\<forall>v\<in>set (map snd word_dict). 0 \<le> v"
    and "1 \<le> m"
    and "m < 2 ^ 31"
    and "\<forall>s\<in>set sample. set (fst s) \<subseteq> fst ` set word_dict \<and> snd s \<in> fst ` set word_dict \<and>
           length (fst s) = c"
  shows "\<exists>data_x data_y.
           GenerateTrainData numpy sample word_dict = Inr (data_x, data_y) \<and>
           length data_x = length sample \<and> length data_y = length sample \<and>
           (\<forall>k<length sample.
              length (data_x ! k) = c * n \<and>
              (\<forall>w<c. \<forall>j<n.
                 data_x ! k ! (n * w + j) =
                   (if odd (id_of word_dict (fst (sample ! k) ! w) div 2 ^ j)
                    then float32 np_pi else 0)) \<and>
              data_y ! k = id_of word_dict (snd (sample ! k)))"
proof -
  let ?n' = "ceil_log2 (nat (1 + m))"
  have m0: "0 \<le> Max (set (map snd word_dict))" and m49: "Max (set (map snd word_dict)) < 2 ^ 49"
  proof -
    show "0 \<le> Max (set (map snd word_dict))"
      using assms(5) unfolding m_def by linarith
    have "(2::int) ^ 31 < 2 ^ 49" by simp
    then show "Max (set (map snd word_dict)) < 2 ^ 49"
      using assms(6) unfolding m_def by linarith
  qed
  note ex = n_qubits_of_exact [OF assms(3) m0 m49, folded m_def]
  have n: "n = ?n'"
    unfolding n_def using ex(2) by simp
  have nq: "n_qubits_of numpy word_dict = Inr (int n)"
    unfolding n by (rule ex(1))
  have wide: "0 \<le> v \<and> v < 2 ^ n" if "v \<in> snd ` set word_dict" for v
    using that assms(4) ex(3) [of v] unfolding n by auto
  have "m \<in> set (map snd word_dict)"
    unfolding m_def using assms(3) by (intro Max_in) simp_all
  then have "m < 2 ^ n"
    using wide by simp
  with assms(5) have n1: "1 \<le> n"
    by (cases n) simp_all
  have fit: "v < 2 ^ 63" if "v \<in> snd ` set word_dict" for v
  proof -
    from that have "v \<le> m"
      unfolding m_def by simp
    moreover have "(2::int) ^ 31 < 2 ^ 63"
      by simp
    ultimately show ?thesis
      using assms(6) by linarith
  qed
  have known: "set (fst s) \<subseteq> fst ` set word_dict \<and> snd s \<in> fst ` set word_dict"
    and same: "length (fst s) = c" if "s \<in> set sample" for s
    using assms(7) that by auto
  let ?enc = "\<lambda>w. map float32 (angles_of word_dict (int n) w)"
  let ?row = "\<lambda>s. concat (map ?enc (fst s))"
  have "map float32 (concat (map (angles_of word_dict (int n)) (fst s))) = ?row s" for s :: sample
    by (simp add: map_concat comp_def)
  then have res: "GenerateTrainData numpy sample word_dict =
      Inr (map ?row sample, map (\<lambda>s. as_int32 (id_of word_dict (snd s))) sample)"
    using GenerateTrainData_known [OF nq wide n1 fit known same, of sample] by simp
  have enc_len: "length (?enc w) = n" if "w \<in> fst ` set word_dict" for w
  proof -
    from that dict_get_known have "id_of word_dict w \<in> snd ` set word_dict" by blast
    from wide [OF this] n1 show ?thesis
      by (simp add: angles_of_def length_label_bin)
  qed
  have enc_nth: "?enc w ! j = (if odd (id_of word_dict w div 2 ^ j) then float32 np_pi else 0)"
    if "w \<in> fst ` set word_dict" and "j < n" for w j
  proof -
    from that(1) dict_get_known have "id_of word_dict w \<in> snd ` set word_dict" by blast
    from wide [OF this] have v: "0 \<le> id_of word_dict w" "id_of word_dict w < 2 ^ n"
      by simp_all
    from length_label_bin [OF v n1] label_bin_nth [OF v n1 that(2)] that(2)
    show ?thesis
      by (simp add: angles_of_def float32_zero)
  qed
  have at: "length (?row (sample ! k)) = c * n \<and>
      (\<forall>w<c. \<forall>j<n. ?row (sample ! k) ! (n * w + j) =
         (if odd (id_of word_dict (fst (sample ! k) ! w) div 2 ^ j) then float32 np_pi else 0)) \<and>
      as_int32 (id_of word_dict (snd (sample ! k))) = id_of word_dict (snd (sample ! k))"
    if k: "k < length sample" for k
  proof -
    let ?s = "sample ! k"
    from k have s: "?s \<in> set sample" by simp
    have in_dict: "w \<in> fst ` set word_dict" if "w \<in> set (fst ?s)" for w
      using known [OF s] that by auto
    have len: "length (?enc w) = n" if "w \<in> set (fst ?s)" for w
      using in_dict [OF that] by (rule enc_len)
    have "length (?row ?s) = length (fst ?s) * n"
      using len by (rule length_concat_uniform)
    then have l: "length (?row ?s) = c * n"
      using same [OF s] by simp
    have e: "?row ?s ! (n * w + j) =
        (if odd (id_of word_dict (fst ?s ! w) div 2 ^ j) then float32 np_pi else 0)"
      if "w < c" and "j < n" for w j
    proof -
      from that(1) same [OF s] have w: "w < length (fst ?s)" by simp
      then have "fst ?s ! w \<in> set (fst ?s)" by simp
      from in_dict [OF this] that(2)
      have "?enc (fst ?s ! w) ! j
          = (if odd (id_of word_dict (fst ?s ! w) div 2 ^ j) then float32 np_pi else 0)"
        by (rule enc_nth)
      moreover have "?row ?s ! (n * w + j) = ?enc (fst ?s ! w) ! j"
        using len w that(2) by (rule nth_concat_uniform)
      ultimately show ?thesis by simp
    qed
    have y: "id_of word_dict (snd ?s) \<in> snd ` set word_dict"
      using dict_get_known known [OF s] by blast
    then have "id_of word_dict (snd ?s) \<le> m"
      unfolding m_def by simp
    with assms(6) have "id_of word_dict (snd ?s) < 2 ^ 31"
      by linarith
    moreover from wide [OF y] have "0 \<le> id_of word_dict (snd ?s)"
      by simp
    ultimately have "as_int32 (id_of word_dict (snd ?s)) = id_of word_dict (snd ?s)"
      by (intro as_int32_small)
    with l e show ?thesis by blast
  qed
  show ?thesis
    unfolding res using at by simp
qed

lemma label_array_samples:
  "label_array ''000'' = Inr [0, 0, 0]" "label_array ''010'' = Inr [0, np_pi, 0]"
  "label_array ''100'' = Inr [np_pi, 0, 0]" "label_array ''001'' = Inr [0, 0, np_pi]"
  "label_array ''0'' = Inr [0]" "label_array ''1'' = Inr [np_pi]"
  using label_array_bits [of "''000''"] label_array_bits [of "''010''"]
    label_array_bits [of "''100''"] label_array_bits [of "''001''"]
    label_array_bits [of "''0''"] label_array_bits [of "''1''"]
  by simp_all

lemma train_data_of_notebook:
  "GenerateTrainData numpy [([''I'', ''love'', ''language'', ''processing''], ''natural'')]
       [(''I'', 0), (''language'', 1), (''love'', 2), (''natural'', 3), (''processing'', 4)]
     = Inr ([[0, 0, 0, 0, 13176795 / 2 ^ 22, 0, 13176795 / 2 ^ 22, 0, 0, 0, 0, 13176795 / 2 ^ 22]],
            [3])"
proof -
  let ?d = "[(''I'', 0::int), (''language'', 1), (''love'', 2), (''natural'', 3), (''processing'', 4)]"
  have "n_qubits_of numpy ?d = Inr (int (ceil_log2 (nat (1 + Max (set (map snd ?d))))))"
    by (rule n_qubits_of_exact(1)) simp_all
  moreover have "ceil_log2 5 = 3"
    by code_simp
  ultimately have nq: "n_qubits_of numpy ?d = Inr 3"
    by simp
  have lb: "label_bin 0 3 = ''000''" "label_bin 2 3 = ''010''" "label_bin 1 3 = ''100''"
    "label_bin 4 3 = ''001''"
    by code_simp+
  show ?thesis
    by (simp add: GenerateTrainData_def nq encode_sample_def encode_word_def dict_get_def lb
        label_array_samples np_array_2d_def np_array_int32_def as_int32_def float32_np_pi float32_zero)
qed

theorem train_data_encoding_witness:
  "[(''I'', 0::int), (''language'', 1), (''love'', 2), (''natural'', 3), (''processing'', 4)] \<noteq> [] \<and>
   1 \<le> Max (set (map snd
          [(''I'', 0::int), (''language'', 1), (''love'', 2), (''natural'', 3), (''processing'', 4)])) \<and>
   Max (set (map snd
          [(''I'', 0::int), (''language'', 1), (''love'', 2), (''natural'', 3), (''processing'', 4)]))
     < 2 ^ 31 \<and>
   nat \<lceil>log 2 (real_of_int (1 + 4))\<rceil> = 3 \<and>
   float32 np_pi = 13176795 / 2 ^ 22 \<and>
   GenerateTrainData numpy_raising
       [([''I'', ''love'', ''language'', ''processing''], ''natural'')]
       [(''I'', 0), (''language'', 1), (''love'', 2), (''natural'', 3), (''processing'', 4)]
     = Inr ([[0, 0, 0, 0, 13176795 / 2 ^ 22, 0, 13176795 / 2 ^ 22, 0, 0, 0, 0, 13176795 / 2 ^ 22]],
            [3]) \<and>
   (\<exists>data_x data_y.
      GenerateTrainData numpy_raising
        [([''I'', ''love'', ''language'', ''processing''], ''natural'')]
        [(''I'', 0), (''language'', 1), (''love'', 2), (''natural'', 3), (''processing'', 4)]
        = Inr (data_x, data_y) \<and>
      length (data_x ! 0) = 4 * 3 \<and> data_x ! 0 ! (3 * 1 + 1) = float32 np_pi \<and> data_y ! 0 = 3)"
proof -
  let ?d = "[(''I'', 0::int), (''language'', 1), (''love'', 2), (''natural'', 3), (''processing'', 4)]"
  let ?s = "[([''I'', ''love'', ''language'', ''processing''], ''natural'')]"
  let ?f = numpy_raising
  have m: "Max (set (map snd ?d)) = 4"
    by simp
  have "int (ceil_log2 (nat (1 + Max (set (map snd ?d)))))
      = \<lceil>log 2 (real_of_int (1 + Max (set (map snd ?d))))\<rceil>"
    by (rule n_qubits_of_exact(2)) simp_all
  moreover have "ceil_log2 5 = 3"
    by code_simp
  ultimately have "\<lceil>log 2 (real_of_int (1 + 4))\<rceil> = 3"
    unfolding m by simp
  then have N: "nat \<lceil>log 2 (real_of_int (1 + 4))\<rceil> = 3"
    by simp
  have h1: "?d \<noteq> []" and h2: "\<forall>v\<in>set (map snd ?d). 0 \<le> v"
    and h3: "1 \<le> Max (set (map snd ?d))" and h4: "Max (set (map snd ?d)) < 2 ^ 31"
    by (simp_all only: m) simp_all
  have h5: "\<forall>s\<in>set ?s. set (fst s) \<subseteq> fst ` set ?d \<and> snd s \<in> fst ` set ?d \<and> length (fst s) = 4"
    by simp
  from train_data_encoding [OF h1 h2 h3 h4 h5, of ?f, unfolded m N]
  obtain data_x data_y where r: "GenerateTrainData ?f ?s ?d = Inr (data_x, data_y)"
    and p: "\<forall>k<length ?s.
              length (data_x ! k) = 4 * 3 \<and>
              (\<forall>w<4. \<forall>j<3.
                 data_x ! k ! (3 * w + j) =
                   (if odd (id_of ?d (fst (?s ! k) ! w) div 2 ^ j) then float32 np_pi else 0)) \<and>
              data_y ! k = id_of ?d (snd (?s ! k))"
    by blast
  have "(0::nat) < length ?s" by simp
  with p have q: "length (data_x ! 0) = 4 * 3 \<and>
      (\<forall>w<4. \<forall>j<3. data_x ! 0 ! (3 * w + j) =
         (if odd (id_of ?d (fst (?s ! 0) ! w) div 2 ^ j) then float32 np_pi else 0)) \<and>
      data_y ! 0 = id_of ?d (snd (?s ! 0))"
    by blast
  then have "\<forall>w<4. \<forall>j<3. data_x ! 0 ! (3 * w + j) =
         (if odd (id_of ?d (fst (?s ! 0) ! w) div 2 ^ j) then float32 np_pi else 0)"
    by blast
  moreover have "(1::nat) < 4" and "(1::nat) < 3" by simp_all
  ultimately have "data_x ! 0 ! (3 * 1 + 1) =
         (if odd (id_of ?d (fst (?s ! 0) ! 1) div 2 ^ 1) then float32 np_pi else 0)"
    by blast
  then have "data_x ! 0 ! (3 * 1 + 1) = float32 np_pi"
    by (simp add: id_of_def)
  moreover from q have "length (data_x ! 0) = 4 * 3" and "data_y ! 0 = 3"
    by (simp_all add: id_of_def)
  ultimately have "length (data_x ! 0) = 4 * 3 \<and> data_x ! 0 ! (3 * 1 + 1) = float32 np_pi \<and>
      data_y ! 0 = 3"
    by blast
  with r have "\<exists>data_x data_y. GenerateTrainData ?f ?s ?d = Inr (data_x, data_y) \<and>
      length (data_x ! 0) = 4 * 3 \<and> data_x ! 0 ! (3 * 1 + 1) = float32 np_pi \<and> data_y ! 0 = 3"
    by blast
  with h1 h3 h4 N float32_np_pi train_data_of_notebook [of ?f] show ?thesis
    by (intro conjI)
qed

text \<open>
  An entry for a set bit is not \<open>pi\<close>: \<^verbatim>\<open>astype(np.float32)\<close> makes it the single-precision
  number \<open>13176795 / 2 ^ 22\<close>, which is greater than \<open>pi\<close>. Here bit \<open>1\<close> of the id \<open>2\<close> of
  the context word \<open>1\<close> is set, and the entry \<open>3 * 1 + 1\<close> of the row is that number.
\<close>

theorem train_data_entry_is_float32:
  "GenerateTrainData numpy_raising
       [([''I'', ''love'', ''language'', ''processing''], ''natural'')]
       [(''I'', 0), (''language'', 1), (''love'', 2), (''natural'', 3), (''processing'', 4)]
     = Inr ([[0, 0, 0, 0, 13176795 / 2 ^ 22, 0, 13176795 / 2 ^ 22, 0, 0, 0, 0, 13176795 / 2 ^ 22]],
            [3]) \<and>
   odd (id_of [(''I'', 0), (''language'', 1), (''love'', 2), (''natural'', 3), (''processing'', 4)]
          ''love'' div 2 ^ 1) \<and>
   [0, 0, 0, 0, 13176795 / 2 ^ 22, 0, 13176795 / 2 ^ 22, 0, 0, 0, 0, 13176795 / 2 ^ 22] ! (3 * 1 + 1) \<noteq> pi"
proof -
  have "pi \<noteq> 13176795 / 2 ^ 22"
    using pi_less_float32_pi by simp
  then show ?thesis
    using train_data_of_notebook [of numpy_raising] by (simp add: id_of_def)
qed

text \<open>
  The other conditions are needed as well. A word that the dictionary does not hold
  raises \<^verbatim>\<open>KeyError\<close>, rows of different lengths make no array, a negative id of a
  context word raises \<^verbatim>\<open>ValueError\<close>, and an id of \<open>2 ^ 31\<close> does not fit the 32-bit
  labels. With a single word in the dictionary the greatest id is \<open>0\<close> and \<open>n = 0\<close>, yet
  \<^verbatim>\<open>bin(0)[-1:1:-1]\<close> is \<^verbatim>\<open>'0'\<close> and each context word takes one entry of the row.
\<close>

lemma n_qubits_two_ids:
  "d \<noteq> [] \<Longrightarrow> Max (set (map snd d)) = 1 \<Longrightarrow> n_qubits_of numpy d = Inr 1"
proof -
  assume "d \<noteq> []" and m: "Max (set (map snd d)) = 1"
  then have "n_qubits_of numpy d = Inr (int (ceil_log2 (nat (1 + Max (set (map snd d))))))"
    by (intro n_qubits_of_exact(1)) simp_all
  moreover have "ceil_log2 2 = 1"
    by code_simp
  ultimately show ?thesis
    using m by simp
qed

lemma unknown_word_raises:
  "GenerateTrainData numpy [([''b''], ''a'')] [(''a'', 1)] = Inl KeyError"
  by (simp add: GenerateTrainData_def n_qubits_two_ids encode_sample_def encode_word_def dict_get_def)

lemma ragged_rows_raise:
  "GenerateTrainData numpy [([''a''], ''b''), ([''a'', ''b''], ''b'')] [(''a'', 0), (''b'', 1)]
     = Inl ValueError"
proof -
  have lb: "label_bin 0 1 = ''0''" "label_bin 1 1 = ''1''"
    by code_simp+
  show ?thesis
    by (simp add: GenerateTrainData_def n_qubits_two_ids encode_sample_def encode_word_def
        dict_get_def lb label_array_samples np_array_2d_def)
qed

lemma negative_id_in_data_raises:
  "GenerateTrainData numpy [([''a''], ''b'')] [(''a'', - 1), (''b'', 1)] = Inl ValueError"
  by (simp add: GenerateTrainData_def n_qubits_two_ids encode_sample_def encode_word_def
      dict_get_def negative_id_raises)

lemma large_id_wraps:
  "GenerateTrainData numpy [([], ''a'')] [(''a'', 2 ^ 31)] = Inr ([[]], [- (2 ^ 31)])"
proof -
  let ?d = "[(''a'', (2::int) ^ 31)]"
  have "n_qubits_of numpy ?d = Inr (int (ceil_log2 (nat (1 + Max (set (map snd ?d))))))"
    by (rule n_qubits_of_exact(1)) simp_all
  then obtain n where "n_qubits_of numpy ?d = Inr n"
    by blast
  then show ?thesis
    by (simp add: GenerateTrainData_def encode_sample_def encode_word_def
      dict_get_def np_array_2d_def np_array_int32_def as_int32_def)
qed

lemma single_word_dictionary:
  "GenerateTrainData numpy [([''a'', ''a'', ''a'', ''a''], ''a'')] [(''a'', 0)]
     = Inr ([[0, 0, 0, 0]], [0]) \<and>
   n_qubits_of numpy [(''a'', 0)] = Inr 0"
proof -
  let ?d = "[(''a'', 0::int)]"
  have "n_qubits_of numpy ?d = Inr (int (ceil_log2 (nat (1 + Max (set (map snd ?d))))))"
    by (rule n_qubits_of_exact(1)) simp_all
  moreover have "ceil_log2 (Suc 0) = 0"
    by code_simp
  ultimately have nq: "n_qubits_of numpy ?d = Inr 0"
    by simp
  have lb: "label_bin 0 0 = ''0''"
    by code_simp
  show ?thesis
    by (simp add: GenerateTrainData_def nq encode_sample_def encode_word_def
        dict_get_def lb label_array_samples np_array_2d_def np_array_int32_def as_int32_def float32_zero)
qed

end
